theory Spec2Isabelle
  imports Main "HOL-Library.Word" "HOL-Library.Multiset"
begin

section \<open>The order-statistics B-tree of btree\_intrusive.h\<close>

text \<open>
  The class \<open>IntrusiveBTree<K, V, ORDER, Cmp>\<close> is embedded as pure functions on a tree
  of nodes. The template parameter \<open>ORDER\<close> is the first argument of every function that
  uses it, keys are a linear order (\<open>Cmp = std::less<K>\<close>), and the \<open>unsigned\<close> fields
  \<open>size\<close> and the rank are 32-bit words, so that their arithmetic wraps as in the source.

  A node owns its children, so a node is a value holding the list of its children.
  The arrays \<open>keys\<close> and \<open>vals\<close> (capacity \<open>ORDER - 1\<close>) are the lists of their first
  \<open>len\<close> slots and \<open>children\<close> (capacity \<open>ORDER\<close>) is the list of the first \<open>len + 1\<close>
  slots of an internal node and empty for a leaf; the field \<open>len\<close> is the length of
  \<open>keys\<close>. The back pointer \<open>parent\<close> is the position in the tree: the parent of a node is
  the node that holds it among its children, which is what every pointer write of the
  source (\<open>splitChild\<close>, \<open>merge\<close>, the two borrows, \<open>insert\<close> and \<open>remove\<close>) keeps it to be.

  An \<open>assert\<close> of the source that fails is the result \<open>Inl AssertionFailed\<close>, an exception
  of \<open>doTraverse\<close> is \<open>Inl\<close> of its kind, and an array index outside the occupied slots
  where the source has no check (undefined behaviour in C++) is \<open>Inl OutOfBounds\<close>.
\<close>

datatype error = AssertionFailed | OutOfBounds | FillViolation | OrderViolation | SizeMismatch

datatype ('k, 'v) node =
  BTreeNode (isLeaf: bool) (size_f: "32 word") (keys: "'k list") (vals: "'v list")
    (children: "('k, 'v) node list")

abbreviation len :: "('k, 'v) node \<Rightarrow> nat" where
  "len n \<equiv> length (keys n)"

definition bindE :: "'e + 'a \<Rightarrow> ('a \<Rightarrow> 'e + 'b) \<Rightarrow> 'e + 'b" where
  "bindE m f = (case m of Inl e \<Rightarrow> Inl e | Inr x \<Rightarrow> f x)"

lemma bindE_simps [simp]: "bindE (Inl e) f = Inl e" "bindE (Inr x) f = f x"
  by (simp_all add: bindE_def)

lemma bindE_cong [fundef_cong]:
  "m = m' \<Longrightarrow> (\<And>x. m' = Inr x \<Longrightarrow> f x = f' x) \<Longrightarrow> bindE m f = bindE m' f'"
  by (cases m') (simp_all add: bindE_def)

lemma bindE_eq_Inr: "bindE m f = Inr y \<longleftrightarrow> (\<exists>x. m = Inr x \<and> f x = Inr y)"
  by (cases m) simp_all

text \<open>\<open>std::move_backward\<close> over the tail followed by a store at \<open>idx\<close>, and the forward
  \<open>std::move\<close> of the tail over slot \<open>idx\<close>.\<close>

definition insertAt :: "nat \<Rightarrow> 'a \<Rightarrow> 'a list \<Rightarrow> 'a list" where
  "insertAt idx x xs = take idx xs @ x # drop idx xs"

definition removeAt :: "nat \<Rightarrow> 'a list \<Rightarrow> 'a list" where
  "removeAt idx xs = take idx xs @ drop (Suc idx) xs"

text \<open>\<open>BTreeLeaf::locate\<close>: \<open>std::find_if\<close> with the predicate \<open>!Cmp()(k, key)\<close>.\<close>

fun find_if_not_less :: "'k::linorder list \<Rightarrow> 'k \<Rightarrow> nat" where
  "find_if_not_less [] key = 0"
| "find_if_not_less (k # ks) key = (if \<not> k < key then 0 else Suc (find_if_not_less ks key))"

definition locate :: "('k::linorder, 'v) node \<Rightarrow> 'k \<Rightarrow> nat" where
  "locate n key = find_if_not_less (keys n) key"

text \<open>The height of a node, the measure of every descent.\<close>

fun hgt :: "('k, 'v) node \<Rightarrow> nat" where
  "hgt (BTreeNode l s ks vs cs) = Suc (Max (set (0 # map hgt cs)))"

lemma hgt_child: "c \<in> set (children n) \<Longrightarrow> hgt c < hgt n"
  by (cases n) (simp add: less_Suc_eq_le)

lemma hgt_nth: "i < length (children n) \<Longrightarrow> hgt (children n ! i) < hgt n"
  by (simp add: hgt_child)

lemma hgt_pos: "0 < hgt n"
  by (cases n) simp

lemma hgt_bound: "(\<forall>c \<in> set (children a). hgt c < m) \<Longrightarrow> 0 < m \<Longrightarrow> hgt a \<le> m"
  by (cases a) (auto simp: Suc_le_eq)

lemma hgt_subset: "set (children a) \<subseteq> set (children b) \<Longrightarrow> hgt a \<le> hgt b"
  by (rule hgt_bound) (auto simp: hgt_child hgt_pos)

text \<open>\<open>splitChild\<close>. The child has \<open>ORDER - 1\<close> keys (asserted) and, when it is internal,
  \<open>ORDER\<close> children, so the loop over \<open>ORDER / 2 \<le> i < ORDER\<close> visits
  \<open>drop (ORDER div 2) (children child)\<close>. \<open>splitNewChild\<close> is the node \<open>newChild\<close> that gets
  the upper half, \<open>splitOldChild\<close> the child as the split leaves it.\<close>

definition splitNewChild :: "nat \<Rightarrow> ('k, 'v) node \<Rightarrow> ('k, 'v) node" where
  "splitNewChild ORDER child =
    (let moved = (if isLeaf child then [] else drop (ORDER div 2) (children child));
         agg = sum_list (map size_f moved)
     in BTreeNode (isLeaf child) (of_nat (ORDER - 1 - ORDER div 2) + agg)
          (drop (ORDER div 2) (keys child)) (drop (ORDER div 2) (vals child)) moved)"

definition splitOldChild :: "nat \<Rightarrow> ('k, 'v) node \<Rightarrow> ('k, 'v) node" where
  "splitOldChild ORDER child =
     BTreeNode (isLeaf child) (size_f child - (size_f (splitNewChild ORDER child) + 1))
       (take (ORDER div 2 - 1) (keys child)) (take (ORDER div 2 - 1) (vals child))
       (if isLeaf child then [] else take (ORDER div 2) (children child))"

definition splitChild :: "nat \<Rightarrow> ('k, 'v) node \<Rightarrow> nat \<Rightarrow> error + ('k, 'v) node" where
  "splitChild ORDER parent idx =
    (if \<not> idx < length (children parent) then Inl OutOfBounds else
     let child = children parent ! idx in
     if len child \<noteq> ORDER - 1 then Inl AssertionFailed else
     Inr (BTreeNode (isLeaf parent) (size_f parent)
            (insertAt idx (keys child ! (ORDER div 2 - 1)) (keys parent))
            (insertAt idx (vals child ! (ORDER div 2 - 1)) (vals parent))
            (take idx (children parent) @ splitOldChild ORDER child # splitNewChild ORDER child
               # drop (Suc idx) (children parent))))"

text \<open>Lines 267 to 273 of \<open>insertNonFull\<close>: the child to descend into, split first when
  it is full.\<close>

definition insertStep :: "nat \<Rightarrow> ('k::linorder, 'v) node \<Rightarrow> 'k \<Rightarrow> error + (('k, 'v) node \<times> nat)" where
  "insertStep ORDER node key =
    (let idx = locate node key in
     if \<not> idx < length (children node) then Inl OutOfBounds
     else if len (children node ! idx) = ORDER - 1 then
       bindE (splitChild ORDER node idx)
         (\<lambda>node'. Inr (node', if key > keys node' ! idx then idx + 1 else idx))
     else Inr (node, idx))"

function insertNonFull :: "nat \<Rightarrow> ('k::linorder, 'v) node \<Rightarrow> 'k \<Rightarrow> 'v \<Rightarrow> error + ('k, 'v) node" where
  "insertNonFull ORDER node key val =
    (if isLeaf node then
       let idx = locate node key in
       Inr (BTreeNode (isLeaf node) (size_f node + 1) (insertAt idx key (keys node))
              (insertAt idx val (vals node)) (children node))
     else
       case insertStep ORDER node key of
         Inl e \<Rightarrow> Inl e
       | Inr (node', idx) \<Rightarrow>
           if \<not> idx < length (children node') then Inl OutOfBounds
           else case insertNonFull ORDER (children node' ! idx) key val of
             Inl e \<Rightarrow> Inl e
           | Inr c \<Rightarrow> Inr (BTreeNode (isLeaf node') (size_f node' + 1) (keys node') (vals node')
                           (list_update (children node') idx c)))"
  by pat_completeness auto

lemma splitChild_children:
  assumes "splitChild ORDER p i = Inr p'"
  shows "\<exists>a b. children p' = take i (children p) @ a # b # drop (Suc i) (children p)
           \<and> set (children a) \<subseteq> set (children (children p ! i))
           \<and> set (children b) \<subseteq> set (children (children p ! i))
           \<and> i < length (children p)"
  using assms
  by (auto simp: splitChild_def splitNewChild_def splitOldChild_def Let_def
      split: if_splits dest: in_set_takeD in_set_dropD)

lemma splitChild_hgt:
  assumes "splitChild ORDER p i = Inr p'" "c \<in> set (children p')"
  shows "hgt c < hgt p"
proof -
  from splitChild_children[OF assms(1)] obtain a b where
    cs: "children p' = take i (children p) @ a # b # drop (Suc i) (children p)"
    and a: "set (children a) \<subseteq> set (children (children p ! i))"
    and b: "set (children b) \<subseteq> set (children (children p ! i))"
    and i: "i < length (children p)" by blast
  from i have ch: "hgt (children p ! i) < hgt p" by (simp add: hgt_child)
  from assms(2) cs consider "c \<in> set (take i (children p))" | "c = a" | "c = b"
    | "c \<in> set (drop (Suc i) (children p))" by auto
  then show ?thesis
  proof cases
    case 1 then show ?thesis by (auto dest: in_set_takeD simp: hgt_child)
  next
    case 2 with hgt_subset[OF a] ch show ?thesis by simp
  next
    case 3 with hgt_subset[OF b] ch show ?thesis by simp
  next
    case 4 then show ?thesis by (auto dest: in_set_dropD simp: hgt_child)
  qed
qed

lemma insertStep_hgt:
  assumes "insertStep ORDER node key = Inr (node', idx)" "c \<in> set (children node')"
  shows "hgt c < hgt node"
  using assms
  by (auto simp: insertStep_def Let_def bindE_eq_Inr hgt_child split: if_splits dest: splitChild_hgt)

termination insertNonFull
  by (relation "measure (\<lambda>(ORDER, node, key, val). hgt node)")
     (auto intro: insertStep_hgt)

declare insertNonFull.simps [simp del]

text \<open>The constructor: the root is an empty leaf.\<close>

definition IntrusiveBTree :: "('k, 'v) node" where
  "IntrusiveBTree = BTreeNode True 0 [] [] []"

text \<open>\<open>insert\<close>. A full root becomes the only child of a new internal root, which is
  split at once.\<close>

definition insert_t :: "nat \<Rightarrow> ('k::linorder, 'v) node \<Rightarrow> 'k \<Rightarrow> 'v \<Rightarrow> error + ('k, 'v) node" where
  "insert_t ORDER root key val =
    (if len root = ORDER - 1 then
       let newRoot = BTreeNode False (size_f root) [] [] [root] in
       bindE (splitChild ORDER newRoot 0) (\<lambda>newRoot'. insertNonFull ORDER newRoot' key val)
     else insertNonFull ORDER root key val)"

text \<open>\<open>BTreeCursor\<close>: the node and the slot; the invalid cursor (null node) is \<open>None\<close>.\<close>

type_synonym ('k, 'v) cursor = "(('k, 'v) node \<times> nat) option"

definition valid :: "('k, 'v) cursor \<Rightarrow> bool" where
  "valid c = (c \<noteq> None)"

definition cursor_key :: "('k, 'v) cursor \<Rightarrow> error + 'k" where
  "cursor_key c = (case c of None \<Rightarrow> Inl AssertionFailed | Some (n, i) \<Rightarrow> Inr (keys n ! i))"

definition cursor_val :: "('k, 'v) cursor \<Rightarrow> error + 'v" where
  "cursor_val c = (case c of None \<Rightarrow> Inl AssertionFailed | Some (n, i) \<Rightarrow> Inr (vals n ! i))"

function doFind :: "('k::linorder, 'v) node \<Rightarrow> 'k \<Rightarrow> error + ('k, 'v) cursor" where
  "doFind node key =
    (let idx = locate node key in
     if idx < len node \<and> \<not> key < keys node ! idx then Inr (Some (node, idx))
     else if \<not> isLeaf node then
       (if idx < length (children node) then doFind (children node ! idx) key
        else Inl OutOfBounds)
     else Inr None)"
  by pat_completeness auto
termination
  by (relation "measure (\<lambda>(node, key). hgt node)") (auto simp: hgt_nth)

declare doFind.simps [simp del]

definition find_t :: "('k::linorder, 'v) node \<Rightarrow> 'k \<Rightarrow> error + ('k, 'v) cursor" where
  "find_t root key = doFind root key"

text \<open>\<open>getRank\<close>: the loop \<open>while (node)\<close> as a recursion on the node, with the running
  rank as accumulator.\<close>

function getRankLoop :: "('k::linorder, 'v) node \<Rightarrow> 'k \<Rightarrow> 32 word \<Rightarrow> error + 32 word" where
  "getRankLoop node key rank =
    (let idx = locate node key;
         rank1 = rank + of_nat idx;
         rank2 = (if \<not> isLeaf node then rank1 + sum_list (map size_f (take idx (children node)))
                  else rank1)
     in if idx < len node \<and> \<not> key < keys node ! idx then
          (if \<not> isLeaf node then
             (if idx < length (children node) then Inr (rank2 + size_f (children node ! idx))
              else Inl OutOfBounds)
           else Inr rank2)
        else if isLeaf node then Inr rank2
        else if idx < length (children node) then getRankLoop (children node ! idx) key rank2
        else Inl OutOfBounds)"
  by pat_completeness auto
termination
  by (relation "measure (\<lambda>(node, key, rank). hgt node)") (auto simp: hgt_nth)

declare getRankLoop.simps [simp del]

definition getRank :: "('k::linorder, 'v) node \<Rightarrow> 'k \<Rightarrow> error + 32 word" where
  "getRank root key = getRankLoop root key 0"

definition size_t :: "('k, 'v) node \<Rightarrow> 32 word" where
  "size_t root = size_f root"

text \<open>\<open>doTraverse\<close> and \<open>traverse\<close>, for \<open>K = int\<close> (the source compares keys with the
  \<open>int\<close> variable \<open>last\<close>). The references \<open>last\<close> and \<open>counter\<close> are passed and
  returned; \<open>depth\<close> and the output on \<open>std::cout\<close> are left out, and the flag \<open>print\<close>,
  which the source uses for nothing else, is kept as an argument. The argument
  \<open>hasParent\<close> is the test \<open>node->parent\<close>: a node has a parent exactly when it is not
  the root, so the exception "node parent is invalid, but not root" has no case here.\<close>

fun traverseLeaf :: "int list \<Rightarrow> int \<times> int \<Rightarrow> error + (int \<times> int)" where
  "traverseLeaf [] (last_k, counter) = Inr (last_k, counter)"
| "traverseLeaf (k # ks) (last_k, counter) =
    (if k < last_k then Inl OrderViolation else traverseLeaf ks (k, counter + 1))"

function doTraverse :: "nat \<Rightarrow> bool \<Rightarrow> (int, 'v) node \<Rightarrow> int \<times> int \<Rightarrow> bool \<Rightarrow> error + (int \<times> int)"
  and traverseLoop :: "nat \<Rightarrow> (int, 'v) node \<Rightarrow> nat \<Rightarrow> int \<times> int \<times> 32 word \<Rightarrow> bool
        \<Rightarrow> error + (int \<times> int \<times> 32 word)" where
  "doTraverse ORDER hasParent node lc print =
    (if hasParent \<and> len node < ORDER div 2 - 1 then Inl FillViolation
     else if isLeaf node then traverseLeaf (keys node) lc
     else bindE (traverseLoop ORDER node 0 (fst lc, snd lc, 0) print) (\<lambda>(last_k, counter, agg).
       if \<not> len node < length (children node) then Inl OutOfBounds
       else bindE (doTraverse ORDER True (children node ! len node) (last_k, counter) print)
         (\<lambda>lc'. if agg + size_f (children node ! len node) + of_nat (len node) \<noteq> size_f node
                then Inl SizeMismatch else Inr lc')))"
| "traverseLoop ORDER node i lca print =
    (if \<not> i < len node then Inr lca
     else if \<not> i < length (children node) then Inl OutOfBounds
     else bindE (doTraverse ORDER True (children node ! i) (fst lca, fst (snd lca)) print)
       (\<lambda>(last_k, counter).
          if keys node ! i < last_k then Inl OrderViolation
          else traverseLoop ORDER node (i + 1)
                 (keys node ! i, counter + 1, snd (snd lca) + size_f (children node ! i)) print))"
  by pat_completeness auto
termination
  by (relation "measures [\<lambda>x. case x of Inl (ORDER, hp, node, lc, p) \<Rightarrow> hgt node
                                        | Inr (ORDER, node, i, lca, p) \<Rightarrow> hgt node,
                          \<lambda>x. case x of Inl (ORDER, hp, node, lc, p) \<Rightarrow> len node + 2
                                        | Inr (ORDER, node, i, lca, p) \<Rightarrow> len node + 1 - i]")
     (auto simp: hgt_nth)

declare doTraverse.simps [simp del] traverseLoop.simps [simp del]

definition traverse :: "nat \<Rightarrow> (int, 'v) node \<Rightarrow> bool \<Rightarrow> error + unit" where
  "traverse ORDER root print = bindE (doTraverse ORDER False root (- 1, 0) print) (\<lambda>_. Inr ())"

subsection \<open>Removal\<close>

text \<open>\<open>merge\<close>: the separator and the right sibling are appended to the child, which
  becomes \<open>mergeChild\<close>; the sibling is destroyed.\<close>

definition mergeChild :: "('k, 'v) node \<Rightarrow> nat \<Rightarrow> ('k, 'v) node" where
  "mergeChild node idx =
    (let child = children node ! idx; sibling = children node ! (idx + 1) in
     BTreeNode (isLeaf child) (size_f child + (size_f sibling + 1))
       (keys child @ keys node ! idx # keys sibling)
       (vals child @ vals node ! idx # vals sibling)
       (if \<not> isLeaf child then children child @ children sibling else children child))"

definition merge :: "nat \<Rightarrow> ('k, 'v) node \<Rightarrow> nat \<Rightarrow> error + ('k, 'v) node" where
  "merge ORDER node idx =
    (if \<not> idx + 1 < length (children node) then Inl OutOfBounds else
     let child = children node ! idx; sibling = children node ! (idx + 1) in
     if \<not> (len child \<le> ORDER div 2 - 1 \<and> len sibling \<le> ORDER div 2 - 1) then Inl AssertionFailed
     else Inr (BTreeNode (isLeaf node) (size_f node) (removeAt idx (keys node)) (removeAt idx (vals node))
                 (take idx (children node) @ mergeChild node idx # drop (idx + 2) (children node))))"

text \<open>\<open>borrowFromPrev\<close> and \<open>borrowFromNext\<close>. The slot \<open>sibling->keys[sibling->len - 1]\<close>
  and the range \<open>sibling->keys + 1 .. sibling->keys + sibling->len\<close> need a sibling with a
  key. After \<open>sibling->len--\<close> the sibling keeps the first \<open>len\<close> of its child slots.
  \<open>prevMoved\<close> and \<open>nextMoved\<close> are the child that changes sides (none between leaves),
  \<open>prevChild\<close>, \<open>prevSibling\<close>, \<open>nextChild\<close> and \<open>nextSibling\<close> the child and the sibling as
  the borrow leaves them.\<close>

definition prevMoved :: "('k, 'v) node \<Rightarrow> nat \<Rightarrow> ('k, 'v) node list" where
  "prevMoved node idx =
    (let child = children node ! idx; sibling = children node ! (idx - 1) in
     if \<not> isLeaf child then [children sibling ! len sibling] else [])"

definition prevChild :: "('k, 'v) node \<Rightarrow> nat \<Rightarrow> ('k, 'v) node" where
  "prevChild node idx =
    (let child = children node ! idx; moved = prevMoved node idx in
     BTreeNode (isLeaf child) (size_f child + sum_list (map size_f moved) + 1)
       (keys node ! (idx - 1) # keys child) (vals node ! (idx - 1) # vals child)
       (moved @ children child))"

definition prevSibling :: "('k, 'v) node \<Rightarrow> nat \<Rightarrow> ('k, 'v) node" where
  "prevSibling node idx =
    (let sibling = children node ! (idx - 1); moved = prevMoved node idx in
     BTreeNode (isLeaf sibling) (size_f sibling - sum_list (map size_f moved) - 1)
       (take (len sibling - 1) (keys sibling)) (take (len sibling - 1) (vals sibling))
       (take (len sibling) (children sibling)))"

definition borrowFromPrev :: "('k, 'v) node \<Rightarrow> nat \<Rightarrow> error + ('k, 'v) node" where
  "borrowFromPrev node idx =
    (if \<not> (0 < idx \<and> idx < length (children node)) then Inl OutOfBounds else
     let child = children node ! idx; sibling = children node ! (idx - 1) in
     if len sibling = 0 then Inl OutOfBounds
     else if \<not> isLeaf child \<and> isLeaf sibling then Inl AssertionFailed
     else if \<not> isLeaf child \<and> \<not> len sibling < length (children sibling) then Inl OutOfBounds
     else Inr (BTreeNode (isLeaf node) (size_f node)
                 (list_update (keys node) (idx - 1) (keys sibling ! (len sibling - 1)))
                 (list_update (vals node) (idx - 1) (vals sibling ! (len sibling - 1)))
                 (list_update (list_update (children node) idx (prevChild node idx))
                    (idx - 1) (prevSibling node idx))))"

definition nextMoved :: "('k, 'v) node \<Rightarrow> nat \<Rightarrow> ('k, 'v) node list" where
  "nextMoved node idx =
    (let child = children node ! idx; sibling = children node ! (idx + 1) in
     if \<not> isLeaf child then [children sibling ! 0] else [])"

definition nextChild :: "('k, 'v) node \<Rightarrow> nat \<Rightarrow> ('k, 'v) node" where
  "nextChild node idx =
    (let child = children node ! idx; moved = nextMoved node idx in
     BTreeNode (isLeaf child) (size_f child + sum_list (map size_f moved) + 1)
       (keys child @ [keys node ! idx]) (vals child @ [vals node ! idx])
       (children child @ moved))"

definition nextSibling :: "('k, 'v) node \<Rightarrow> nat \<Rightarrow> ('k, 'v) node" where
  "nextSibling node idx =
    (let child = children node ! idx; sibling = children node ! (idx + 1);
         moved = nextMoved node idx in
     BTreeNode (isLeaf sibling) (size_f sibling - sum_list (map size_f moved) - 1)
       (drop 1 (keys sibling)) (drop 1 (vals sibling))
       (if \<not> isLeaf child then drop 1 (children sibling)
        else take (len sibling) (children sibling)))"

definition borrowFromNext :: "('k, 'v) node \<Rightarrow> nat \<Rightarrow> error + ('k, 'v) node" where
  "borrowFromNext node idx =
    (if \<not> idx + 1 < length (children node) then Inl OutOfBounds else
     let child = children node ! idx; sibling = children node ! (idx + 1) in
     if len sibling = 0 then Inl OutOfBounds
     else if \<not> isLeaf child \<and> isLeaf sibling then Inl AssertionFailed
     else if \<not> isLeaf child \<and> children sibling = [] then Inl OutOfBounds
     else Inr (BTreeNode (isLeaf node) (size_f node)
                 (list_update (keys node) idx (keys sibling ! 0))
                 (list_update (vals node) idx (vals sibling ! 0))
                 (list_update (list_update (children node) idx (nextChild node idx))
                    (idx + 1) (nextSibling node idx))))"

text \<open>\<open>fill\<close>. With \<open>idx = node->len = 0\<close> the last branch calls \<open>merge(node, idx - 1)\<close>
  on the unsigned \<open>idx\<close>, an index before the array.\<close>

definition fill :: "nat \<Rightarrow> ('k, 'v) node \<Rightarrow> nat \<Rightarrow> error + ('k, 'v) node" where
  "fill ORDER node idx =
    (if \<not> (idx \<le> len node \<and> length (children node) = len node + 1) then Inl OutOfBounds
     else if idx \<noteq> 0 \<and> len (children node ! (idx - 1)) \<ge> ORDER div 2 then borrowFromPrev node idx
     else if idx \<noteq> len node \<and> len (children node ! (idx + 1)) \<ge> ORDER div 2
       then borrowFromNext node idx
     else if idx \<noteq> len node then merge ORDER node idx
     else if idx = 0 then Inl OutOfBounds
     else merge ORDER node (idx - 1))"

text \<open>\<open>removeFromLeaf\<close> is in two parts. The first is what it does to the leaf: the entry
  is removed and \<open>size\<close> decremented. The result carries, when \<open>node->len < ORDER / 2\<close>, the
  key \<open>node->keys[0]\<close> that the call of \<open>fill\<close> will look up in the parent: the first
  remaining key, or, when none remains, the removed key, which slot 0 still holds.\<close>

definition removeFromLeaf :: "nat \<Rightarrow> ('k, 'v) node \<Rightarrow> nat \<Rightarrow> error + (('k, 'v) node \<times> 'k option)" where
  "removeFromLeaf ORDER node idx =
    (if \<not> idx < len node then Inl AssertionFailed else
     let ks = removeAt idx (keys node);
         node' = BTreeNode (isLeaf node) (size_f node - 1) ks (removeAt idx (vals node)) (children node)
     in Inr (node', if length ks < ORDER div 2 then Some (if ks = [] then keys node ! 0 else ks ! 0)
                    else None))"

text \<open>The second part is the walk of \<open>removeFromLeaf\<close> up the parent chain, done by each
  ancestor when the removal below it returns: \<open>NoWalk\<close> when no entry was removed below,
  \<open>Walk None\<close> when \<open>size\<close> is to be decremented, \<open>Walk (Some k)\<close> in the parent of the leaf
  when \<open>fill\<close> is to be called as well, at \<open>locate(k)\<close>, which the source asserts to be the
  slot of the leaf. The root has no parent, and its \<open>Walk\<close> is dropped.\<close>

datatype 'k walk = NoWalk | Walk "'k option"

definition above :: "'k walk \<Rightarrow> 'k walk" where
  "above w = (case w of NoWalk \<Rightarrow> NoWalk | Walk _ \<Rightarrow> Walk None)"

definition walkUp :: "nat \<Rightarrow> ('k::linorder, 'v) node \<Rightarrow> nat \<Rightarrow> ('k, 'v) node \<Rightarrow> 'k walk
    \<Rightarrow> error + ('k, 'v) node" where
  "walkUp ORDER parent ci child w =
    (case w of
       NoWalk \<Rightarrow> Inr (BTreeNode (isLeaf parent) (size_f parent) (keys parent) (vals parent)
                       (list_update (children parent) ci child))
     | Walk pending \<Rightarrow>
         let parent' = BTreeNode (isLeaf parent) (size_f parent - 1) (keys parent) (vals parent)
                         (list_update (children parent) ci child)
         in (case pending of
               None \<Rightarrow> Inr parent'
             | Some k \<Rightarrow>
                 let nIdx = locate parent' k in
                 if nIdx \<noteq> ci then Inl AssertionFailed else fill ORDER parent' nIdx))"

text \<open>\<open>getPredecessor\<close> and \<open>getSuccessor\<close>: the loops down the right and the left spine.\<close>

function rightmost :: "('k, 'v) node \<Rightarrow> error + ('k, 'v) node" where
  "rightmost cur =
    (if isLeaf cur then Inr cur
     else if len cur < length (children cur) then rightmost (children cur ! len cur)
     else Inl OutOfBounds)"
  by pat_completeness auto
termination
  by (relation "measure hgt") (auto simp: hgt_nth)

declare rightmost.simps [simp del]

function leftmost :: "('k, 'v) node \<Rightarrow> error + ('k, 'v) node" where
  "leftmost cur =
    (if isLeaf cur then Inr cur
     else if 0 < length (children cur) then leftmost (children cur ! 0)
     else Inl OutOfBounds)"
  by pat_completeness auto
termination
  by (relation "measure hgt") (auto simp: hgt_nth)

declare leftmost.simps [simp del]

definition getPredecessor :: "('k, 'v) node \<Rightarrow> nat \<Rightarrow> error + (('k, 'v) node \<times> nat)" where
  "getPredecessor node idx =
    (if \<not> idx < length (children node) then Inl OutOfBounds
     else bindE (rightmost (children node ! idx))
       (\<lambda>cur. if \<not> len cur > 0 then Inl AssertionFailed else Inr (cur, len cur - 1)))"

definition getSuccessor :: "('k, 'v) node \<Rightarrow> nat \<Rightarrow> error + (('k, 'v) node \<times> nat)" where
  "getSuccessor node idx =
    (if \<not> idx + 1 < length (children node) then Inl OutOfBounds
     else bindE (leftmost (children node ! (idx + 1)))
       (\<lambda>cur. if \<not> len cur > 0 then Inl AssertionFailed else Inr (cur, 0)))"

text \<open>\<open>removeFromLeaf\<close> at the cursor of \<open>getPredecessor\<close>, and at the cursor of
  \<open>getSuccessor\<close>, seen from the subtree \<open>cur\<close> that holds the leaf: the leaf is reached
  down the same spine, and each node passed does its part of the walk.\<close>

function removeFromLeafPred :: "nat \<Rightarrow> ('k::linorder, 'v) node \<Rightarrow> error + (('k, 'v) node \<times> 'k walk)" where
  "removeFromLeafPred ORDER cur =
    (if isLeaf cur then
       bindE (removeFromLeaf ORDER cur (len cur - 1)) (\<lambda>(cur', pending). Inr (cur', Walk pending))
     else if len cur < length (children cur) then
       bindE (removeFromLeafPred ORDER (children cur ! len cur)) (\<lambda>(c, w).
         bindE (walkUp ORDER cur (len cur) c w) (\<lambda>cur'. Inr (cur', above w)))
     else Inl OutOfBounds)"
  by pat_completeness auto
termination
  by (relation "measure (\<lambda>(ORDER, cur). hgt cur)") (auto simp: hgt_nth)

declare removeFromLeafPred.simps [simp del]

function removeFromLeafSucc :: "nat \<Rightarrow> ('k::linorder, 'v) node \<Rightarrow> error + (('k, 'v) node \<times> 'k walk)" where
  "removeFromLeafSucc ORDER cur =
    (if isLeaf cur then
       bindE (removeFromLeaf ORDER cur 0) (\<lambda>(cur', pending). Inr (cur', Walk pending))
     else if 0 < length (children cur) then
       bindE (removeFromLeafSucc ORDER (children cur ! 0)) (\<lambda>(c, w).
         bindE (walkUp ORDER cur 0 c w) (\<lambda>cur'. Inr (cur', above w)))
     else Inl OutOfBounds)"
  by pat_completeness auto
termination
  by (relation "measure (\<lambda>(ORDER, cur). hgt cur)") (auto simp: hgt_nth)

declare removeFromLeafSucc.simps [simp del]

text \<open>Lines 429 to 437 of \<open>doRemove\<close>: the child to descend into, filled first when it has
  fewer than \<open>ORDER / 2\<close> keys.\<close>

definition removeStep :: "nat \<Rightarrow> ('k, 'v) node \<Rightarrow> nat \<Rightarrow> error + (('k, 'v) node \<times> nat)" where
  "removeStep ORDER node idx =
    (if \<not> idx < length (children node) then Inl OutOfBounds else
     let flag = (idx = len node) in
     bindE (if len (children node ! idx) < ORDER div 2 then fill ORDER node idx else Inr node)
       (\<lambda>node'. Inr (node', if flag \<and> idx > len node' then idx - 1 else idx)))"

lemma hgt_subset2:
  "set (children a) \<subseteq> set (children b) \<union> set (children c) \<Longrightarrow> hgt a \<le> max (hgt b) (hgt c)"
  by (rule hgt_bound) (auto simp: hgt_pos less_max_iff_disj dest: hgt_child)

lemma hgt_mem_update:
  "c \<in> set (list_update xs i y) \<Longrightarrow> c = y \<or> c \<in> set xs"
  by (auto dest: set_update_subset_insert[THEN subsetD])

lemma merge_hgt:
  assumes "merge ORDER node idx = Inr node'" "c \<in> set (children node')"
  shows "hgt c < hgt node"
proof -
  let ?ch = "children node ! idx" and ?sb = "children node ! (idx + 1)"
  let ?m = "children node' ! idx"
  from assms(1) have i: "idx + 1 < length (children node)"
    by (auto simp: merge_def split: if_splits)
  then have h: "hgt ?ch < hgt node" "hgt ?sb < hgt node" by (simp_all add: hgt_nth)
  from assms(1) i have
    cs: "children node' = take idx (children node) @ ?m # drop (idx + 2) (children node)"
    by (auto simp: merge_def mergeChild_def Let_def nth_append split: if_splits)
  from assms(1) i have m: "set (children ?m) \<subseteq> set (children ?ch) \<union> set (children ?sb)"
    by (auto simp: merge_def mergeChild_def Let_def nth_append split: if_splits)
  from hgt_subset2[OF m] h have "hgt ?m < hgt node" by simp
  with assms(2) show ?thesis
    by (subst (asm) cs) (auto dest: in_set_takeD in_set_dropD simp: hgt_child)
qed

lemma borrowFromPrev_hgt:
  assumes "borrowFromPrev node idx = Inr node'" "c \<in> set (children node')"
  shows "hgt c < hgt node"
proof -
  let ?ch = "children node ! idx" and ?sb = "children node ! (idx - 1)"
  let ?a = "children node' ! idx" and ?b = "children node' ! (idx - 1)"
  from assms(1) have i: "0 < idx" "idx < length (children node)"
    by (auto simp: borrowFromPrev_def split: if_splits)
  then have h: "hgt ?ch < hgt node" "hgt ?sb < hgt node" by (simp_all add: hgt_nth)
  from assms(1) i have
    cs: "children node' = list_update (list_update (children node) idx ?a) (idx - 1) ?b"
    by (auto simp: borrowFromPrev_def prevChild_def prevSibling_def prevMoved_def Let_def split: if_splits)
  from assms(1) i have a: "set (children ?a) \<subseteq> set (children ?ch) \<union> set (children ?sb)"
    by (auto simp: borrowFromPrev_def prevChild_def prevSibling_def prevMoved_def Let_def split: if_splits)
  from assms(1) i have b: "set (children ?b) \<subseteq> set (children ?sb)"
    by (auto simp: borrowFromPrev_def prevChild_def prevSibling_def prevMoved_def Let_def split: if_splits dest: in_set_takeD)
  from hgt_subset2[OF a] hgt_subset[OF b] h have "hgt ?a < hgt node" "hgt ?b < hgt node" by simp_all
  with assms(2) show ?thesis
    by (subst (asm) cs) (auto dest!: hgt_mem_update simp: hgt_child)
qed

lemma borrowFromNext_hgt:
  assumes "borrowFromNext node idx = Inr node'" "c \<in> set (children node')"
  shows "hgt c < hgt node"
proof -
  let ?ch = "children node ! idx" and ?sb = "children node ! (idx + 1)"
  let ?a = "children node' ! idx" and ?b = "children node' ! (idx + 1)"
  from assms(1) have i: "idx + 1 < length (children node)"
    by (auto simp: borrowFromNext_def split: if_splits)
  then have h: "hgt ?ch < hgt node" "hgt ?sb < hgt node" by (simp_all add: hgt_nth)
  from assms(1) i have
    cs: "children node' = list_update (list_update (children node) idx ?a) (idx + 1) ?b"
    by (auto simp: borrowFromNext_def nextChild_def nextSibling_def nextMoved_def Let_def split: if_splits)
  from assms(1) i have a: "set (children ?a) \<subseteq> set (children ?ch) \<union> set (children ?sb)"
    by (auto simp: borrowFromNext_def nextChild_def nextSibling_def nextMoved_def Let_def split: if_splits)
  from assms(1) i have b: "set (children ?b) \<subseteq> set (children ?sb)"
    by (auto simp: borrowFromNext_def nextChild_def nextSibling_def nextMoved_def Let_def split: if_splits dest: in_set_takeD in_set_dropD)
  from hgt_subset2[OF a] hgt_subset[OF b] h have "hgt ?a < hgt node" "hgt ?b < hgt node" by simp_all
  with assms(2) show ?thesis
    by (subst (asm) cs) (auto dest!: hgt_mem_update simp: hgt_child)
qed

lemma fill_hgt:
  assumes "fill ORDER node idx = Inr node'" "c \<in> set (children node')"
  shows "hgt c < hgt node"
  using assms
  by (auto simp: fill_def split: if_splits
      dest: merge_hgt borrowFromPrev_hgt borrowFromNext_hgt)

lemma removeStep_hgt:
  assumes "removeStep ORDER node idx = Inr (node', idx')" "c \<in> set (children node')"
  shows "hgt c < hgt node"
  using assms
  by (auto simp: removeStep_def Let_def bindE_eq_Inr hgt_child split: if_splits dest: fill_hgt)

text \<open>\<open>doRemove\<close> and \<open>removeFromNonLeaf\<close>. \<open>doRemove\<close> returns the node, the \<open>bool\<close> of the
  source and the walk left to the ancestors. In \<open>removeFromNonLeaf\<close> the cursor of
  \<open>getPredecessor\<close> and \<open>getSuccessor\<close> is on a leaf, so that the calls of
  \<open>removeFromNonLeaf\<close> at the cursor are never reached.\<close>

function doRemove :: "nat \<Rightarrow> ('k::linorder, 'v) node \<Rightarrow> 'k \<Rightarrow> error + (('k, 'v) node \<times> bool \<times> 'k walk)"
  and removeFromNonLeaf :: "nat \<Rightarrow> ('k::linorder, 'v) node \<Rightarrow> nat \<Rightarrow> error + (('k, 'v) node \<times> 'k walk)" where
  "doRemove ORDER node key =
    (let idx = locate node key in
     if idx < len node \<and> \<not> key < keys node ! idx then
       (if isLeaf node then
          bindE (removeFromLeaf ORDER node idx) (\<lambda>(node', pending). Inr (node', True, Walk pending))
        else bindE (removeFromNonLeaf ORDER node idx) (\<lambda>(node', w). Inr (node', True, w)))
     else if isLeaf node then Inr (node, False, NoWalk)
     else bindE (removeStep ORDER node idx) (\<lambda>(node', idx').
       if \<not> idx' < length (children node') then Inl OutOfBounds
       else bindE (doRemove ORDER (children node' ! idx') key) (\<lambda>(c, ret, w).
         bindE (walkUp ORDER node' idx' c w) (\<lambda>node''. Inr (node'', ret, above w)))))"
| "removeFromNonLeaf ORDER node idx =
    (if \<not> idx + 1 < length (children node) then Inl OutOfBounds
     else if len (children node ! idx) \<ge> ORDER div 2 then
       bindE (getPredecessor node idx) (\<lambda>(pn, pidx).
         let node1 = BTreeNode (isLeaf node) (size_f node) (list_update (keys node) idx (keys pn ! pidx))
                       (list_update (vals node) idx (vals pn ! pidx)) (children node)
         in bindE (removeFromLeafPred ORDER (children node1 ! idx)) (\<lambda>(c, w).
              bindE (walkUp ORDER node1 idx c w) (\<lambda>node2. Inr (node2, above w))))
     else if len (children node ! (idx + 1)) \<ge> ORDER div 2 then
       bindE (getSuccessor node idx) (\<lambda>(sn, sidx).
         let node1 = BTreeNode (isLeaf node) (size_f node) (list_update (keys node) idx (keys sn ! sidx))
                       (list_update (vals node) idx (vals sn ! sidx)) (children node)
         in bindE (removeFromLeafSucc ORDER (children node1 ! (idx + 1))) (\<lambda>(c, w).
              bindE (walkUp ORDER node1 (idx + 1) c w) (\<lambda>node2. Inr (node2, above w))))
     else
       let key = keys node ! idx in
       bindE (merge ORDER node idx) (\<lambda>node1.
         if \<not> idx < length (children node1) then Inl OutOfBounds
         else bindE (doRemove ORDER (children node1 ! idx) key) (\<lambda>(c, ret, w).
           bindE (walkUp ORDER node1 idx c w) (\<lambda>node2. Inr (node2, above w)))))"
  by pat_completeness auto
termination
  by (relation "measure (\<lambda>x. case x of Inl (ORDER, node, key) \<Rightarrow> 2 * hgt node + 1
                                       | Inr (ORDER, node, idx) \<Rightarrow> 2 * hgt node)")
     (auto dest: removeStep_hgt[OF _ nth_mem] merge_hgt[OF _ nth_mem])

declare doRemove.simps [simp del] removeFromNonLeaf.simps [simp del]

text \<open>\<open>remove\<close>: an internal root left without keys gives way to its only child.\<close>

definition remove_t :: "nat \<Rightarrow> ('k::linorder, 'v) node \<Rightarrow> 'k \<Rightarrow> error + (('k, 'v) node \<times> bool)" where
  "remove_t ORDER root key =
    bindE (doRemove ORDER root key) (\<lambda>(root', ret, w).
      if \<not> isLeaf root' \<and> len root' = 0 then
        (if children root' = [] then Inl OutOfBounds else Inr (children root' ! 0, ret))
      else Inr (root', ret))"

section \<open>The public interface as a machine\<close>

text \<open>The public operations, for \<open>int\<close> keys, with the answer each one gives. \<open>find\<close>,
  \<open>getRank\<close> and \<open>size\<close> are \<open>const\<close> member functions: they get the tree and give an
  answer.\<close>

datatype 'v op = Insert int 'v | Find int | Remove int | Rank int | Size | Traverse bool

datatype 'v answer = NoAnswer | CursorIs "(int, 'v) cursor" | BoolIs bool | WordIs "32 word"

fun apply_op :: "nat \<Rightarrow> (int, 'v) node \<Rightarrow> 'v op \<Rightarrow> error + ((int, 'v) node \<times> 'v answer)" where
  "apply_op ORDER t (Insert k v) = bindE (insert_t ORDER t k v) (\<lambda>t'. Inr (t', NoAnswer))"
| "apply_op ORDER t (Find k) = bindE (find_t t k) (\<lambda>c. Inr (t, CursorIs c))"
| "apply_op ORDER t (Remove k) = bindE (remove_t ORDER t k) (\<lambda>(t', r). Inr (t', BoolIs r))"
| "apply_op ORDER t (Rank k) = bindE (getRank t k) (\<lambda>r. Inr (t, WordIs r))"
| "apply_op ORDER t Size = Inr (t, WordIs (size_t t))"
| "apply_op ORDER t (Traverse p) = bindE (traverse ORDER t p) (\<lambda>_. Inr (t, NoAnswer))"

fun run :: "nat \<Rightarrow> (int, 'v) node \<Rightarrow> 'v op list
    \<Rightarrow> error + ((int, 'v) node \<times> ('v op \<times> 'v answer) list)" where
  "run ORDER t [] = Inr (t, [])"
| "run ORDER t (x # xs) =
    bindE (apply_op ORDER t x) (\<lambda>(t', a).
      bindE (run ORDER t' xs) (\<lambda>(t'', as). Inr (t'', (x, a) # as)))"

fun is_query :: "'v op \<Rightarrow> bool" where
  "is_query (Find k) = True"
| "is_query (Rank k) = True"
| "is_query Size = True"
| "is_query _ = False"

text \<open>Sequences of inserts and of removes.\<close>

fun inserts :: "nat \<Rightarrow> ('k::linorder, 'v) node \<Rightarrow> ('k \<times> 'v) list \<Rightarrow> error + ('k, 'v) node" where
  "inserts ORDER t [] = Inr t"
| "inserts ORDER t (kv # kvs) =
    bindE (insert_t ORDER t (fst kv) (snd kv)) (\<lambda>t'. inserts ORDER t' kvs)"

fun removes :: "nat \<Rightarrow> ('k::linorder, 'v) node \<Rightarrow> 'k list \<Rightarrow> error + ('k, 'v) node" where
  "removes ORDER t [] = Inr t"
| "removes ORDER t (k # ks) = bindE (remove_t ORDER t k) (\<lambda>(t', r). removes ORDER t' ks)"

section \<open>What the tree holds\<close>

text \<open>The entries of a tree in the order of the in-order walk: the children of a node
  interleaved with its own entries.\<close>

fun inter :: "'a list list \<Rightarrow> 'a list \<Rightarrow> 'a list" where
  "inter [] es = es"
| "inter (c # cs) [] = c @ concat cs"
| "inter (c # cs) (e # es) = c @ e # inter cs es"

fun inorder :: "('k, 'v) node \<Rightarrow> ('k \<times> 'v) list" where
  "inorder (BTreeNode l s ks vs cs) = inter (map inorder cs) (zip ks vs)"

definition keysOf :: "('k, 'v) node \<Rightarrow> 'k list" where
  "keysOf t = map fst (inorder t)"

definition countLess :: "'k::linorder \<Rightarrow> ('k, 'v) node \<Rightarrow> nat" where
  "countLess k t = length (filter (\<lambda>x. x < k) (keysOf t))"

text \<open>Every node below the root has at least \<open>m\<close> keys. The minimum of the specification
  is \<open>\<lceil>ORDER/2\<rceil> - 1\<close>, the one \<open>doTraverse\<close> checks is \<open>ORDER / 2 - 1\<close>.\<close>

fun fillOK :: "nat \<Rightarrow> ('k, 'v) node \<Rightarrow> bool" where
  "fillOK m (BTreeNode l s ks vs cs) = (\<forall>c \<in> set cs. m \<le> len c \<and> fillOK m c)"

definition minFillSpec :: "nat \<Rightarrow> nat" where
  "minFillSpec ORDER = (ORDER + 1) div 2 - 1"

definition minFillCode :: "nat \<Rightarrow> nat" where
  "minFillCode ORDER = ORDER div 2 - 1"

text \<open>The shape of a B-tree of height \<open>h\<close>: the leaves are \<open>h\<close> levels below the node,
  a leaf has no children, an internal node with \<open>len\<close> keys has \<open>len + 1\<close> children, and
  every node has as many values as keys.\<close>

fun shaped :: "nat \<Rightarrow> ('k, 'v) node \<Rightarrow> bool" where
  "shaped 0 (BTreeNode l s ks vs cs) = (l \<and> cs = [] \<and> length vs = length ks)"
| "shaped (Suc h) (BTreeNode l s ks vs cs) =
    (\<not> l \<and> length vs = length ks \<and> length cs = Suc (length ks) \<and> (\<forall>c \<in> set cs. shaped h c))"

text \<open>Size consistency: in every node, \<open>size\<close> is \<open>len\<close> plus the sizes of the children (in
  a leaf, \<open>len\<close>). \<open>doTraverse\<close> checks the internal nodes only.\<close>

fun sizesOK :: "('k, 'v) node \<Rightarrow> bool" where
  "sizesOK (BTreeNode l s ks vs cs) =
    (s = of_nat (length ks) + sum_list (map size_f cs) \<and> (\<forall>c \<in> set cs. sizesOK c))"

fun internalSizesOK :: "('k, 'v) node \<Rightarrow> bool" where
  "internalSizesOK (BTreeNode l s ks vs cs) =
    ((\<not> l \<longrightarrow> s = of_nat (length ks) + sum_list (map size_f cs)) \<and> (\<forall>c \<in> set cs. internalSizesOK c))"

text \<open>No node holds more than \<open>ORDER - 1\<close> keys, the capacity of its arrays.\<close>

fun capOK :: "nat \<Rightarrow> ('k, 'v) node \<Rightarrow> bool" where
  "capOK ORDER (BTreeNode l s ks vs cs) = (length ks \<le> ORDER - 1 \<and> (\<forall>c \<in> set cs. capOK ORDER c))"

text \<open>The entries after an insert, as a list: the new entry goes before the first entry
  whose key is not less than its own.\<close>

definition insList :: "'k::linorder \<Rightarrow> 'v \<Rightarrow> ('k \<times> 'v) list \<Rightarrow> ('k \<times> 'v) list" where
  "insList k v xs = takeWhile (\<lambda>e. fst e < k) xs @ (k, v) # dropWhile (\<lambda>e. fst e < k) xs"

text \<open>The entries of an internal node before its child \<open>j\<close> and after it.\<close>

definition preOf :: "('k, 'v) node \<Rightarrow> nat \<Rightarrow> ('k \<times> 'v) list" where
  "preOf p j = inter (take j (map inorder (children p))) (take j (zip (keys p) (vals p)))"

definition postOf :: "('k, 'v) node \<Rightarrow> nat \<Rightarrow> ('k \<times> 'v) list" where
  "postOf p j = (if j < len p
      then (keys p ! j, vals p ! j)
             # inter (drop (Suc j) (map inorder (children p))) (drop (Suc j) (zip (keys p) (vals p)))
      else [])"

text \<open>A well-formed tree: the shape of a B-tree, consistent sizes, no node over its
  capacity, and the keys of the in-order walk in order (equal keys may follow each other,
  as \<open>insert\<close> leaves them). The trees that inserts build have the minimum fill of
  \<open>doTraverse\<close> as well.\<close>

definition wellFormed :: "nat \<Rightarrow> ('k::linorder, 'v) node \<Rightarrow> bool" where
  "wellFormed ORDER t \<longleftrightarrow> (\<exists>h. shaped h t) \<and> sizesOK t \<and> capOK ORDER t \<and> sorted (keysOf t)"

definition insertInv :: "nat \<Rightarrow> ('k::linorder, 'v) node \<Rightarrow> bool" where
  "insertInv ORDER t \<longleftrightarrow> (\<exists>h. shaped h t) \<and> sizesOK t \<and> capOK ORDER t
     \<and> fillOK (minFillCode ORDER) t \<and> sorted (keysOf t)"

text \<open>What a call of \<open>doTraverse\<close> on a node establishes, by its result: when it
  returns, the walk from \<open>l\<close> on never decreases, the sizes of the internal nodes and
  the fill of the nodes below are right, and \<open>last\<close> and \<open>counter\<close> have moved over
  the keys of the node; when it raises, the invariant that the exception names is broken.\<close>

definition travPost :: "nat \<Rightarrow> bool \<Rightarrow> (int, 'v) node \<Rightarrow> int \<Rightarrow> int \<Rightarrow> error + (int \<times> int) \<Rightarrow> bool" where
  "travPost m hp node l c r =
    ((\<forall>l' c'. r = Inr (l', c') \<longrightarrow>
        sorted (l # keysOf node) \<and> internalSizesOK node \<and> fillOK m node \<and> (hp \<longrightarrow> m \<le> len node)
        \<and> l' = last (l # keysOf node) \<and> c' = c + int (length (keysOf node)))
     \<and> (\<forall>e. r = Inl e \<longrightarrow>
        (e = FillViolation \<and> \<not> (fillOK m node \<and> (hp \<longrightarrow> m \<le> len node)))
        \<or> (e = OrderViolation \<and> \<not> sorted (l # keysOf node))
        \<or> (e = SizeMismatch \<and> \<not> internalSizesOK node)))"

section \<open>Properties\<close>

subsection \<open>Selector forms and interleaving\<close>

lemma shaped_0_iff:
  "shaped 0 n \<longleftrightarrow> isLeaf n \<and> children n = [] \<and> length (vals n) = len n"
  by (cases n) simp

lemma shaped_Suc_iff:
  "shaped (Suc h) n \<longleftrightarrow> \<not> isLeaf n \<and> length (vals n) = len n
     \<and> length (children n) = Suc (len n) \<and> (\<forall>c \<in> set (children n). shaped h c)"
  by (cases n) simp

lemma shaped_vals: "shaped h n \<Longrightarrow> length (vals n) = len n"
  by (cases h) (simp_all add: shaped_0_iff shaped_Suc_iff)

lemma shaped_leaf: "shaped h n \<Longrightarrow> isLeaf n \<longleftrightarrow> h = 0"
  by (cases h) (simp_all add: shaped_0_iff shaped_Suc_iff)

lemma sizesOK_iff:
  "sizesOK n \<longleftrightarrow> size_f n = of_nat (len n) + sum_list (map size_f (children n))
     \<and> (\<forall>c \<in> set (children n). sizesOK c)"
  by (cases n) simp

lemma internalSizesOK_iff:
  "internalSizesOK n \<longleftrightarrow>
     (\<not> isLeaf n \<longrightarrow> size_f n = of_nat (len n) + sum_list (map size_f (children n)))
     \<and> (\<forall>c \<in> set (children n). internalSizesOK c)"
  by (cases n) simp

lemma fillOK_iff: "fillOK m n \<longleftrightarrow> (\<forall>c \<in> set (children n). m \<le> len c \<and> fillOK m c)"
  by (cases n) simp

lemma capOK_iff: "capOK ORDER n \<longleftrightarrow> len n \<le> ORDER - 1 \<and> (\<forall>c \<in> set (children n). capOK ORDER c)"
  by (cases n) simp

lemma inorder_eq: "inorder n = inter (map inorder (children n)) (zip (keys n) (vals n))"
  by (cases n) simp

subsection \<open>Interleaving\<close>

lemma inter_append:
  "length cs1 = length es1 \<Longrightarrow> inter (cs1 @ cs2) (es1 @ es2) = inter cs1 es1 @ inter cs2 es2"
  by (induction cs1 es1 rule: list_induct2) simp_all

lemma inter_single [simp]: "inter [c] [] = c"
  by simp

lemma map_inter: "map f (inter cs es) = inter (map (map f) cs) (map f es)"
  by (induction cs es rule: inter.induct) (simp_all add: map_concat)

lemma keysOf_eq:
  "length (vals n) = len n \<Longrightarrow> keysOf n = inter (map keysOf (children n)) (keys n)"
proof -
  assume l: "length (vals n) = len n"
  have "keysOf n = map fst (inter (map inorder (children n)) (zip (keys n) (vals n)))"
    unfolding keysOf_def by (subst inorder_eq) (rule refl)
  also have "\<dots> = inter (map (map fst) (map inorder (children n))) (map fst (zip (keys n) (vals n)))"
    by (rule map_inter)
  also have "map (map fst) (map inorder (children n)) = map keysOf (children n)"
    by (simp add: keysOf_def[abs_def])
  also from l have "map fst (zip (keys n) (vals n)) = keys n" by simp
  finally show ?thesis .
qed

lemma inter_drop_step:
  assumes "i < length es" "length cs = Suc (length es)"
  shows "inter (drop i cs) (drop i es) = cs ! i @ es ! i # inter (drop (Suc i) cs) (drop (Suc i) es)"
proof -
  from assms have "drop i cs = cs ! i # drop (Suc i) cs" "drop i es = es ! i # drop (Suc i) es"
    by (simp_all add: Cons_nth_drop_Suc)
  then show ?thesis by simp
qed

lemma inter_drop_last:
  assumes "length cs = Suc (length es)"
  shows "inter (drop (length es) cs) (drop (length es) es) = cs ! length es"
proof -
  from assms have "cs ! length es # drop (Suc (length es)) cs = drop (length es) cs"
    by (intro Cons_nth_drop_Suc) simp
  moreover from assms have "drop (Suc (length es)) cs = []" by simp
  ultimately have "drop (length es) cs = [cs ! length es]" by simp
  then show ?thesis by simp
qed



subsection \<open>locate\<close>

lemma find_if_not_less_le: "find_if_not_less ks key \<le> length ks"
  by (induction ks) auto

lemma find_if_not_less_before: "i < find_if_not_less ks key \<Longrightarrow> ks ! i < key"
  by (induction ks arbitrary: i) (auto simp: nth_Cons split: if_splits nat.splits)

lemma find_if_not_less_at:
  "find_if_not_less ks key < length ks \<Longrightarrow> key \<le> ks ! find_if_not_less ks key"
  by (induction ks) auto

text \<open>C8. \<open>locate\<close> returns the smallest index whose key is not less than the searched key,
  and \<open>len\<close> when every key is less: the index is at most \<open>len\<close>, every key before it is
  less than the searched key, and the key at it, when there is one, is not.\<close>

theorem locate_lower_bound:
  "locate n key \<le> len n
   \<and> (\<forall>i < locate n key. keys n ! i < key)
   \<and> (locate n key < len n \<longrightarrow> key \<le> keys n ! locate n key)
   \<and> locate n key = (if \<exists>i < len n. key \<le> keys n ! i
                       then (LEAST i. i < len n \<and> key \<le> keys n ! i) else len n)"
proof -
  let ?l = "locate n key"
  have le: "?l \<le> len n" by (simp add: locate_def find_if_not_less_le)
  have before: "\<forall>i < ?l. keys n ! i < key"
    by (simp add: locate_def find_if_not_less_before)
  have at: "?l < len n \<longrightarrow> key \<le> keys n ! ?l"
    by (simp add: locate_def find_if_not_less_at)
  have least: "?l = (if \<exists>i < len n. key \<le> keys n ! i
                     then (LEAST i. i < len n \<and> key \<le> keys n ! i) else len n)"
  proof (cases "\<exists>i < len n. key \<le> keys n ! i")
    case True
    then obtain i where i: "i < len n" "key \<le> keys n ! i" by blast
    with before have "\<not> i < ?l" by (auto simp: not_less[symmetric])
    with i le have l: "?l < len n" by simp
    have "(LEAST i. i < len n \<and> key \<le> keys n ! i) = ?l"
    proof (rule Least_equality)
      show "?l < len n \<and> key \<le> keys n ! ?l" using l at by simp
    next
      fix y assume "y < len n \<and> key \<le> keys n ! y"
      with before show "?l \<le> y" by (meson not_less)
    qed
    with True show ?thesis by simp
  next
    case False
    with at le show ?thesis by (auto simp: not_less[symmetric])
  qed
  from le before at least show ?thesis by blast
qed

theorem locate_lower_bound_witness:
  "locate (BTreeNode True 3 [10, 20, 30] [(), (), ()] []) (25::int) = 2
   \<and> [10, 20, 30] ! 0 < (25::int) \<and> [10, 20, 30] ! 1 < (25::int) \<and> (25::int) \<le> [10, 20, 30] ! 2
   \<and> locate (BTreeNode True 3 [10, 20, 30] [(), (), ()] []) (35::int) = 3"
  using locate_lower_bound [of "BTreeNode True 3 [10, 20, 30] [(), (), ()] []" "25::int"]
  by (simp add: locate_def)

subsection \<open>The read-only operations\<close>

text \<open>C10. \<open>find\<close>, \<open>getRank\<close> and \<open>size\<close> leave the tree as it is: a run of operations
  ends in the same tree, and every other operation in it gives the same answer, when
  the calls of the three are taken out of the run. On the empty tree \<open>find\<close> gives the
  invalid cursor, and \<open>getRank\<close> and \<open>size\<close> give 0.\<close>

theorem queries_read_only:
  "(run ORDER t xs = Inr (t', as) \<longrightarrow>
      run ORDER t (filter (\<lambda>x. \<not> is_query x) xs)
        = Inr (t', filter (\<lambda>xa. \<not> is_query (fst xa)) as))
   \<and> (is_query x \<longrightarrow> apply_op ORDER t x = Inr (t'', a) \<longrightarrow> t'' = t)
   \<and> find_t (IntrusiveBTree :: (int, 'v) node) k = Inr None
   \<and> getRank (IntrusiveBTree :: (int, 'v) node) k = Inr 0
   \<and> size_t (IntrusiveBTree :: (int, 'v) node) = 0"
proof -
  have one: "is_query x \<Longrightarrow> apply_op ORDER t x = Inr (t'', a) \<Longrightarrow> t'' = t" for x t t'' a
    by (cases x) (auto simp: bindE_eq_Inr)
  have many: "run ORDER t xs = Inr (t', as) \<Longrightarrow>
      run ORDER t (filter (\<lambda>x. \<not> is_query x) xs)
        = Inr (t', filter (\<lambda>xa. \<not> is_query (fst xa)) as)" for t t' as
  proof (induction xs arbitrary: t t' as)
    case Nil
    then show ?case by simp
  next
    case (Cons x xs)
    from Cons.prems obtain t1 a1 as1 where
      a: "apply_op ORDER t x = Inr (t1, a1)" and r: "run ORDER t1 xs = Inr (t', as1)"
      and as: "as = (x, a1) # as1"
      by (auto simp: bindE_eq_Inr)
    show ?case
    proof (cases "is_query x")
      case True
      from one[OF True a] have "t1 = t" .
      with True r as Cons.IH show ?thesis by simp
    next
      case False
      with a r as Cons.IH[OF r] show ?thesis by simp
    qed
  qed
  have empty: "find_t (IntrusiveBTree :: (int, 'v) node) k = Inr None"
    "getRank (IntrusiveBTree :: (int, 'v) node) k = Inr 0"
    "size_t (IntrusiveBTree :: (int, 'v) node) = 0"
    by (simp_all add: find_t_def getRank_def size_t_def IntrusiveBTree_def locate_def
          doFind.simps getRankLoop.simps)
  from one many empty show ?thesis by blast
qed

theorem queries_read_only_witness:
  "run 4 (IntrusiveBTree :: (int, unit) node) [Insert 1 (), Find 1, Rank 2, Size, Insert 2 ()]
     = Inr (BTreeNode True 2 [1, 2] [(), ()] [],
            [(Insert 1 (), NoAnswer), (Find 1, CursorIs (Some (BTreeNode True 1 [1] [()] [], 0))),
             (Rank 2, WordIs 1), (Size, WordIs 1), (Insert 2 (), NoAnswer)])
   \<and> run 4 (IntrusiveBTree :: (int, unit) node) [Insert 1 (), Insert 2 ()]
     = Inr (BTreeNode True 2 [1, 2] [(), ()] [], [(Insert 1 (), NoAnswer), (Insert 2 (), NoAnswer)])
   \<and> is_query (Find 1 :: unit op)
   \<and> apply_op 4 (IntrusiveBTree :: (int, unit) node) (Find 1) = Inr (IntrusiveBTree, CursorIs None)"
proof -
  have r: "run 4 (IntrusiveBTree :: (int, unit) node) [Insert 1 (), Find 1, Rank 2, Size, Insert 2 ()]
     = Inr (BTreeNode True 2 [1, 2] [(), ()] [],
            [(Insert 1 (), NoAnswer), (Find 1, CursorIs (Some (BTreeNode True 1 [1] [()] [], 0))),
             (Rank 2, WordIs 1), (Size, WordIs 1), (Insert 2 (), NoAnswer)])"
    by code_simp
  have a: "apply_op 4 (IntrusiveBTree :: (int, unit) node) (Find 1) = Inr (IntrusiveBTree, CursorIs None)"
    by code_simp
  from r a queries_read_only [of 4 "IntrusiveBTree :: (int, unit) node"
      "[Insert 1 (), Find 1, Rank 2, Size, Insert 2 ()]" "BTreeNode True 2 [1, 2] [(), ()] []"
      "[(Insert 1 (), NoAnswer), (Find 1, CursorIs (Some (BTreeNode True 1 [1] [()] [], 0))),
        (Rank 2, WordIs 1), (Size, WordIs 1), (Insert 2 (), NoAnswer)]"
      "Find 1" "IntrusiveBTree" "CursorIs None" 0]
  show ?thesis
    apply (simp only: simp_thms filter.simps is_query.simps fst_conv if_True if_False
          not_True_eq_False not_False_eq_True)
    apply (elim conjE)
    apply assumption
    done
qed

subsection \<open>The scenario with ORDER = 3\<close>

definition after_inserts_1_to_5 :: "(int, unit) node" where
  "after_inserts_1_to_5 =
     BTreeNode False 5 [1] [()]
       [BTreeNode False 0 [] [] [BTreeNode True 0 [] [] []],
        BTreeNode False 4 [2, 3] [(), ()]
          [BTreeNode True 0 [] [] [], BTreeNode True 0 [] [] [],
           BTreeNode True 2 [4, 5] [(), ()] []]]"

definition after_remove_3 :: "(int, unit) node" where
  "after_remove_3 =
     BTreeNode False 4 [1] [()]
       [BTreeNode False 0 [] [] [BTreeNode True 0 [] [] []],
        BTreeNode False 3 [2, 4] [(), ()]
          [BTreeNode True 0 [] [] [], BTreeNode True 0 [] [] [],
           BTreeNode True 1 [5] [()] []]]"

text \<open>C7. With \<open>ORDER = 3\<close>, inserting 1, 2, 3, 4, 5 into the empty tree gives a tree on
  which \<open>traverse\<close> does not raise, \<open>size()\<close> is 5 and \<open>rank(3)\<close> is 2; then \<open>remove(3)\<close>
  returns true, and afterwards \<open>find(3)\<close> is invalid and \<open>size()\<close> is 4.\<close>

theorem scenario_order_3:
  "inserts 3 IntrusiveBTree [(1, ()), (2, ()), (3, ()), (4, ()), (5, ())] = Inr after_inserts_1_to_5
   \<and> traverse 3 after_inserts_1_to_5 True = Inr ()
   \<and> traverse 3 after_inserts_1_to_5 False = Inr ()
   \<and> size_t after_inserts_1_to_5 = 5
   \<and> getRank after_inserts_1_to_5 3 = Inr 2
   \<and> remove_t 3 after_inserts_1_to_5 3 = Inr (after_remove_3, True)
   \<and> find_t after_remove_3 3 = Inr None
   \<and> \<not> valid (None :: (int, unit) cursor)
   \<and> size_t after_remove_3 = 4"
  by code_simp

subsection \<open>Inputs on which the code does otherwise\<close>

text \<open>C1, counterexample. With \<open>ORDER = 4\<close>, \<open>insert(1, 20)\<close> on the tree that holds key 1
  with value 10 gives a leaf with two entries for key 1, and \<open>size()\<close> goes from 1 to 2.\<close>

theorem insert_overwrites_counterexample:
  "insert_t 4 (IntrusiveBTree :: (int, int) node) 1 10 = Inr (BTreeNode True 1 [1] [10] [])
   \<and> insert_t 4 (BTreeNode True 1 [1] [10] []) (1::int) (20::int)
       = Inr (BTreeNode True 2 [1, 1] [20, 10] [])
   \<and> inorder (BTreeNode True 2 [1, 1] [20, 10] []) = [(1::int, 20::int), (1, 10)]
   \<and> size_t (BTreeNode True 1 [1::int] [10::int] []) = 1
   \<and> size_t (BTreeNode True 2 [1::int, 1] [20::int, 10] []) = 2"
  by code_simp

text \<open>C2, counterexample. With \<open>ORDER = 4\<close>, after four inserts of key 1 no stored key is
  less than 1, and \<open>rank(1)\<close> is 2.\<close>

theorem rank_counts_less_counterexample:
  "inserts 4 (IntrusiveBTree :: (int, int) node) [(1, 10), (1, 20), (1, 30), (1, 40)]
     = Inr (BTreeNode False 4 [1] [20]
              [BTreeNode True 2 [1, 1] [40, 30] [], BTreeNode True 1 [1] [10] []])
   \<and> getRank (BTreeNode False 4 [1::int] [20::int]
              [BTreeNode True 2 [1, 1] [40, 30] [], BTreeNode True 1 [1] [10] []]) 1 = Inr 2
   \<and> countLess 1 (BTreeNode False 4 [1::int] [20::int]
              [BTreeNode True 2 [1, 1] [40, 30] [], BTreeNode True 1 [1] [10] []]) = 0"
  by code_simp

text \<open>C4, counterexample. With \<open>ORDER = 5\<close> the minimum of the specification is 2 keys;
  inserting 1, 2, 3, 4, 5 splits the root and leaves a leaf with the single key 1.\<close>

theorem minimum_fill_counterexample:
  "inserts 5 (IntrusiveBTree :: (int, unit) node) [(1, ()), (2, ()), (3, ()), (4, ()), (5, ())]
     = Inr (BTreeNode False 5 [2] [()]
              [BTreeNode True 1 [1] [()] [], BTreeNode True 3 [3, 4, 5] [(), (), ()] []])
   \<and> minFillSpec 5 = 2
   \<and> \<not> fillOK (minFillSpec 5) (BTreeNode False 5 [2::int] [()]
              [BTreeNode True 1 [1] [()] [], BTreeNode True 3 [3, 4, 5] [(), (), ()] []])"
  by code_simp

text \<open>C5, counterexample. With \<open>ORDER = 4\<close>, after \<open>insert(1, 10)\<close> and \<open>insert(1, 20)\<close>,
  \<open>remove(1)\<close> returns true, \<open>find(1)\<close> is still valid, and a second \<open>remove(1)\<close> returns
  true.\<close>

theorem round_trip_counterexample:
  "inserts 4 (IntrusiveBTree :: (int, int) node) [(1, 10), (1, 20)]
     = Inr (BTreeNode True 2 [1, 1] [20, 10] [])
   \<and> remove_t 4 (BTreeNode True 2 [1::int, 1] [20::int, 10] []) 1
     = Inr (BTreeNode True 1 [1] [10] [], True)
   \<and> find_t (BTreeNode True 1 [1::int] [10::int] []) 1 = Inr (Some (BTreeNode True 1 [1] [10] [], 0))
   \<and> valid (Some (BTreeNode True 1 [1::int] [10::int] [], 0::nat))
   \<and> remove_t 4 (BTreeNode True 1 [1::int] [10::int] []) 1 = Inr (BTreeNode True 0 [] [] [], True)"
  by code_simp

text \<open>C6, counterexample. With \<open>ORDER = 4\<close>, \<open>traverse\<close> does not raise on the leaf with the
  keys 1, 1 that two inserts of key 1 give; and without the flag it raises all the same,
  here on the tree that holds the key -5 alone.\<close>

theorem traverse_raises_counterexample:
  "inserts 4 (IntrusiveBTree :: (int, unit) node) [(1, ()), (1, ())]
     = Inr (BTreeNode True 2 [1, 1] [(), ()] [])
   \<and> traverse 4 (BTreeNode True 2 [1, 1] [(), ()] []) True = Inr ()
   \<and> insert_t 4 (IntrusiveBTree :: (int, unit) node) (- 5) () = Inr (BTreeNode True 1 [- 5] [()] [])
   \<and> traverse 4 (BTreeNode True 1 [- 5] [()] []) False = Inl OrderViolation"
  by code_simp

text \<open>C9, the failing input. With \<open>ORDER = 3\<close>, after the inserts of 1, 2, 3, 4, 5 and the
  removes of 2, 4, 5 and 3, the root is an internal node without keys over the leaf
  that holds 1.\<close>

theorem root_collapse_failing_input:
  "inserts 3 IntrusiveBTree [(1, ()), (2, ()), (3, ()), (4, ()), (5, ())] = Inr after_inserts_1_to_5
   \<and> removes 3 after_inserts_1_to_5 [2, 4, 5]
     = Inr (BTreeNode False 2 [1] [()]
              [BTreeNode False 0 [] [] [BTreeNode True 0 [] [] []],
               BTreeNode False 1 [] [] [BTreeNode True 1 [3] [()] []]])
   \<and> remove_t 3 (BTreeNode False 2 [1] [()]
              [BTreeNode False 0 [] [] [BTreeNode True 0 [] [] []],
               BTreeNode False 1 [] [] [BTreeNode True 1 [3] [()] []]]) (3::int)
     = Inr (BTreeNode False 1 [] [] [BTreeNode True 1 [1] [()] []], True)"
  by code_simp

subsection \<open>traverse\<close>

lemma sorted_le_last: "sorted xs \<Longrightarrow> x \<in> set xs \<Longrightarrow> x \<le> last xs"
  by (induction xs) (auto split: if_splits)

lemma sorted_chain:
  "sorted (l # A @ k # R) \<longleftrightarrow> sorted (l # A) \<and> last (l # A) \<le> k \<and> sorted (k # R)"
proof -
  have "sorted (l # A @ k # R) \<longleftrightarrow> sorted ((l # A) @ (k # R))" by simp
  also have "\<dots> \<longleftrightarrow> sorted (l # A) \<and> sorted (k # R) \<and> (\<forall>x \<in> set (l # A). \<forall>y \<in> set (k # R). x \<le> y)"
    by (rule sorted_append)
  also have "\<dots> \<longleftrightarrow> sorted (l # A) \<and> last (l # A) \<le> k \<and> sorted (k # R)"
  proof (cases "sorted (l # A) \<and> sorted (k # R)")
    case True
    then have s: "sorted (l # A)" "sorted (k # R)" by simp_all
    have "(\<forall>x \<in> set (l # A). \<forall>y \<in> set (k # R). x \<le> y) \<longleftrightarrow> last (l # A) \<le> k"
    proof
      assume a: "\<forall>x \<in> set (l # A). \<forall>y \<in> set (k # R). x \<le> y"
      have "last (l # A) \<in> set (l # A)" by (rule last_in_set) simp
      with a show "last (l # A) \<le> k" by (meson list.set_intros(1))
    next
      assume a: "last (l # A) \<le> k"
      show "\<forall>x \<in> set (l # A). \<forall>y \<in> set (k # R). x \<le> y"
      proof (intro ballI)
        fix x y assume x: "x \<in> set (l # A)" and y: "y \<in> set (k # R)"
        from sorted_le_last[OF s(1) x] a have "x \<le> k" by simp
        moreover from s(2) y have "k \<le> y" by auto
        ultimately show "x \<le> y" by simp
      qed
    qed
    with True show ?thesis by blast
  next
    case False
    then show ?thesis by blast
  qed
  finally show ?thesis .
qed

lemma traverseLeaf_spec:
  "traverseLeaf ks (l, c) =
     (if sorted (l # ks) then Inr (last (l # ks), c + int (length ks)) else Inl OrderViolation)"
proof (induction ks arbitrary: l c)
  case Nil
  then show ?case by simp
next
  case (Cons k ks)
  have s: "sorted (l # k # ks) \<longleftrightarrow> l \<le> k \<and> sorted (k # ks)" by auto
  have "traverseLeaf (k # ks) (l, c) = (if k < l then Inl OrderViolation else traverseLeaf ks (k, c + 1))"
    by simp
  also have "\<dots> = (if k < l then Inl OrderViolation else
      (if sorted (k # ks) then Inr (last (k # ks), c + 1 + int (length ks)) else Inl OrderViolation))"
    by (simp only: Cons.IH)
  also have "\<dots> = (if sorted (l # k # ks) then Inr (last (l # k # ks), c + int (length (k # ks)))
      else Inl OrderViolation)"
    unfolding s by (simp del: sorted_simps sorted2 add: not_less)
  finally show ?case .
qed

lemma keysOf_leaf: "shaped 0 n \<Longrightarrow> keysOf n = keys n"
  by (simp add: keysOf_eq shaped_0_iff)


lemma doTraverse_leaf:
  assumes "shaped 0 node"
  shows "travPost (ORDER div 2 - 1) hp node l c (doTraverse ORDER hp node (l, c) p)"
proof -
  from assms have lf: "isLeaf node" "children node = []" by (simp_all add: shaped_0_iff)
  have i1: "internalSizesOK node" using lf by (subst internalSizesOK_iff) simp
  have i2: "fillOK (ORDER div 2 - 1) node" using lf by (subst fillOK_iff) simp
  note i = i1 i2
  have d: "doTraverse ORDER hp node (l, c) p =
      (if hp \<and> len node < ORDER div 2 - 1 then Inl FillViolation
       else traverseLeaf (keys node) (l, c))"
    using lf by (subst doTraverse.simps) simp
  show ?thesis
  proof (cases "hp \<and> len node < ORDER div 2 - 1")
    case True
    then show ?thesis unfolding d by (simp add: travPost_def)
  next
    case False
    then have f: "hp \<longrightarrow> ORDER div 2 - 1 \<le> len node" by auto
    have d': "doTraverse ORDER hp node (l, c) p = traverseLeaf (keys node) (l, c)"
      by (rule trans[OF d]) (rule if_not_P[OF False])
    show ?thesis
      unfolding d' traverseLeaf_spec travPost_def keysOf_leaf[OF assms]
      using i f by (cases "sorted (l # keys node)") simp_all
  qed
qed

lemma bindE_assoc: "bindE (bindE m f) g = bindE m (\<lambda>x. bindE (f x) g)"
  by (cases m) simp_all

lemma doTraverse_node:
  fixes node :: "(int, 'v) node"
  assumes sh: "shaped (Suc h) node"
    and IH: "\<And>c hp l cn. c \<in> set (children node) \<Longrightarrow>
               travPost (ORDER div 2 - 1) hp c l cn (doTraverse ORDER hp c (l, cn) p)"
  shows "travPost (ORDER div 2 - 1) hp node l c (doTraverse ORDER hp node (l, c) p)"
proof -
  define m where "m = ORDER div 2 - 1"
  define cs where "cs = children node"
  define ks where "ks = keys node"
  define n where "n = len node"
  define kcs where "kcs = map keysOf cs"
  define rest where "rest i = inter (drop i kcs) (drop i ks)" for i
  define fin where "fin = (\<lambda>(l', c', agg').
      bindE (doTraverse ORDER True (cs ! n) (l', c') p)
        (\<lambda>lc'. if agg' + size_f (cs ! n) + of_nat n \<noteq> size_f node
               then Inl SizeMismatch else Inr lc'))"
  define cont where "cont i l c agg = bindE (traverseLoop ORDER node i (l, c, agg) p) fin"
    for i l c agg
  define childOK where "childOK j \<longleftrightarrow> fillOK m (cs ! j) \<and> m \<le> len (cs ! j)" for j
  define sumOK where "sumOK i agg \<longleftrightarrow>
      agg + sum_list (map size_f (drop i cs)) + of_nat n = size_f node" for i agg
  define LP where "LP i l c agg r \<longleftrightarrow>
      (\<forall>l' c'. r = Inr (l', c') \<longrightarrow>
          sorted (l # rest i) \<and> (\<forall>j. i \<le> j \<and> j \<le> n \<longrightarrow> internalSizesOK (cs ! j) \<and> childOK j)
          \<and> l' = last (l # rest i) \<and> c' = c + int (length (rest i)) \<and> sumOK i agg)
      \<and> (\<forall>e. r = Inl e \<longrightarrow>
          (e = FillViolation \<and> (\<exists>j. i \<le> j \<and> j \<le> n \<and> \<not> childOK j))
          \<or> (e = OrderViolation \<and> \<not> sorted (l # rest i))
          \<or> (e = SizeMismatch \<and> ((\<exists>j. i \<le> j \<and> j \<le> n \<and> \<not> internalSizesOK (cs ! j)) \<or> \<not> sumOK i agg)))"
    for i l c agg r
  from sh have nl: "\<not> isLeaf node" and lv: "length (vals node) = len node"
    and lc: "length cs = Suc n" and shc: "\<forall>c \<in> set cs. shaped h c"
    by (simp_all add: shaped_Suc_iff cs_def n_def)
  have lk: "length ks = n" by (simp add: ks_def n_def)
  have lkcs: "length kcs = Suc (length ks)" by (simp add: kcs_def lc lk)
  have csj: "cs ! j \<in> set (children node)" if "j \<le> n" for j
    using that lc by (simp add: cs_def[symmetric])
  have kcsj: "kcs ! j = keysOf (cs ! j)" if "j \<le> n" for j
    using that lc by (simp add: kcs_def)
  have rest_n: "rest n = keysOf (cs ! n)"
    using inter_drop_last[OF lkcs] by (simp add: rest_def lk kcsj)
  have rest_step: "rest i = keysOf (cs ! i) @ ks ! i # rest (Suc i)" if "i < n" for i
    using inter_drop_step[of i ks kcs] that lkcs lk by (simp add: rest_def kcsj)
  have drop_n: "drop n cs = [cs ! n]"
  proof -
    have "cs ! n # drop (Suc n) cs = drop n cs" by (rule Cons_nth_drop_Suc) (simp add: lc)
    then show ?thesis by (simp add: lc)
  qed
  have drop_step: "drop i cs = cs ! i # drop (Suc i) cs" if "i < n" for i
    by (rule Cons_nth_drop_Suc[symmetric]) (use that lc in simp)
  have loop: "LP i l c agg (cont i l c agg)" if "i \<le> n" for i l c agg
    using that
  proof (induction "n - i" arbitrary: i l c agg)
    case 0
    then have i: "i = n" by simp
    have tl: "traverseLoop ORDER node n (l, c, agg) p = Inr (l, c, agg)"
      by (subst traverseLoop.simps) (simp add: n_def)
    let ?r0 = "doTraverse ORDER True (cs ! n) (l, c) p"
    have ct: "cont n l c agg = bindE ?r0
        (\<lambda>lc'. if agg + size_f (cs ! n) + of_nat n \<noteq> size_f node then Inl SizeMismatch else Inr lc')"
      by (simp add: cont_def tl fin_def)
    have tp: "travPost m True (cs ! n) l c ?r0"
      unfolding m_def by (rule IH) (rule csj, simp)
    have so: "sumOK n agg \<longleftrightarrow> agg + size_f (cs ! n) + of_nat n = size_f node"
      by (simp add: sumOK_def drop_n)
    show ?case
    proof (cases ?r0)
      case (Inl e)
      with tp show ?thesis
        unfolding i ct LP_def travPost_def rest_n childOK_def by auto
    next
      case (Inr lc')
      obtain l' c' where lc': "lc' = (l', c')" by (cases lc')
      from tp Inr lc' have g: "sorted (l # keysOf (cs ! n))" "internalSizesOK (cs ! n)" "childOK n"
        "l' = last (l # keysOf (cs ! n))" "c' = c + int (length (keysOf (cs ! n)))"
        by (simp_all add: travPost_def childOK_def)
      have all: "internalSizesOK (cs ! j) \<and> childOK j" if "n \<le> j \<and> j \<le> n" for j
      proof -
        from that have "j = n" by simp
        with g(2,3) show ?thesis by simp
      qed
      show ?thesis
        unfolding i ct Inr lc' LP_def rest_n so using g all
        by (auto simp del: sorted_simps sorted2)
    qed
  next
    case (Suc d)
    then have i: "i < n" and d: "d = n - Suc i" by simp_all
    let ?A = "keysOf (cs ! i)" and ?k = "ks ! i" and ?R = "rest (Suc i)"
    let ?r0 = "doTraverse ORDER True (cs ! i) (l, c) p"
    have tl: "traverseLoop ORDER node i (l, c, agg) p = bindE ?r0
        (\<lambda>(l1, c1). if ?k < l1 then Inl OrderViolation
           else traverseLoop ORDER node (i + 1) (?k, c1 + 1, agg + size_f (cs ! i)) p)"
      using i lc by (subst traverseLoop.simps) (simp add: n_def cs_def ks_def split_def cong: if_cong)
    have ct: "cont i l c agg = bindE ?r0
        (\<lambda>(l1, c1). if ?k < l1 then Inl OrderViolation
           else cont (Suc i) ?k (c1 + 1) (agg + size_f (cs ! i)))"
      unfolding cont_def tl bindE_assoc
      by (rule bindE_cong[OF refl]) (auto simp: cont_def)
    have tp: "travPost m True (cs ! i) l c ?r0"
      unfolding m_def by (rule IH) (rule csj, use i in simp)
    have so: "sumOK i agg \<longleftrightarrow> sumOK (Suc i) (agg + size_f (cs ! i))"
      by (simp add: sumOK_def drop_step[OF i] add.assoc)
    have rs: "rest i = ?A @ ?k # ?R" by (rule rest_step[OF i])
    have ch: "sorted (l # rest i) \<longleftrightarrow> sorted (l # ?A) \<and> last (l # ?A) \<le> ?k \<and> sorted (?k # ?R)"
      unfolding rs by (rule sorted_chain)
    show ?case
    proof (cases ?r0)
      case (Inl e)
      with tp have "(e = FillViolation \<and> \<not> childOK i) \<or> (e = OrderViolation \<and> \<not> sorted (l # ?A))
          \<or> (e = SizeMismatch \<and> \<not> internalSizesOK (cs ! i))"
        by (simp add: travPost_def childOK_def)
      moreover have "cont i l c agg = Inl e" by (simp add: ct Inl)
      ultimately show ?thesis
        unfolding LP_def ch using i by (auto simp del: sorted_simps sorted2)
    next
      case (Inr lc1)
      obtain l1 c1 where lc1: "lc1 = (l1, c1)" by (cases lc1)
      from tp Inr lc1 have g: "sorted (l # ?A)" "internalSizesOK (cs ! i)" "childOK i"
        "l1 = last (l # ?A)" "c1 = c + int (length ?A)"
        by (simp_all add: travPost_def childOK_def)
      show ?thesis
      proof (cases "?k < l1")
        case True
        then have "cont i l c agg = Inl OrderViolation" by (simp add: ct Inr lc1)
        moreover from True g have "\<not> sorted (l # rest i)" unfolding ch by simp
        ultimately show ?thesis unfolding LP_def by simp
      next
        case False
        then have ct': "cont i l c agg = cont (Suc i) ?k (c1 + 1) (agg + size_f (cs ! i))"
          by (simp add: ct Inr lc1)
        from i have "Suc i \<le> n" by simp
        from Suc.hyps(1)[OF d this]
        have lp: "LP (Suc i) ?k (c1 + 1) (agg + size_f (cs ! i)) (cont i l c agg)"
          unfolding ct' .
        have la: "last (l # rest i) = last (?k # ?R)" unfolding rs by simp
        have le: "int (length (rest i)) = int (length ?A) + 1 + int (length ?R)" unfolding rs by simp
        have ji: "\<And>j. i \<le> j \<Longrightarrow> j = i \<or> Suc i \<le> j" by auto
        from False g have k: "last (l # ?A) \<le> ?k" by simp
        show ?thesis
        proof (cases "cont i l c agg")
          case (Inl e)
          with lp have "(e = FillViolation \<and> (\<exists>j. Suc i \<le> j \<and> j \<le> n \<and> \<not> childOK j))
            \<or> (e = OrderViolation \<and> \<not> sorted (?k # ?R))
            \<or> (e = SizeMismatch \<and> ((\<exists>j. Suc i \<le> j \<and> j \<le> n \<and> \<not> internalSizesOK (cs ! j))
                  \<or> \<not> sumOK (Suc i) (agg + size_f (cs ! i))))"
            by (simp add: LP_def)
          then have "(e = FillViolation \<and> (\<exists>j. i \<le> j \<and> j \<le> n \<and> \<not> childOK j))
            \<or> (e = OrderViolation \<and> \<not> sorted (l # rest i))
            \<or> (e = SizeMismatch \<and> ((\<exists>j. i \<le> j \<and> j \<le> n \<and> \<not> internalSizesOK (cs ! j))
                  \<or> \<not> sumOK i agg))"
            unfolding ch so by (meson Suc_leD)
          with Inl show ?thesis by (simp add: LP_def)
        next
          case (Inr lc2)
          obtain l2 c2 where lc2: "lc2 = (l2, c2)" by (cases lc2)
          from lp Inr lc2 have h: "sorted (?k # ?R)"
            "\<And>j. Suc i \<le> j \<and> j \<le> n \<Longrightarrow> internalSizesOK (cs ! j) \<and> childOK j"
            "l2 = last (?k # ?R)" "c2 = c1 + 1 + int (length ?R)"
            "sumOK (Suc i) (agg + size_f (cs ! i))"
            by (simp_all add: LP_def)
          have all: "internalSizesOK (cs ! j) \<and> childOK j" if "i \<le> j \<and> j \<le> n" for j
            using ji[of j] that g(2,3) h(2)[of j] by auto
          have "sorted (l # rest i)" unfolding ch using g(1) k h(1) by simp
          moreover have "l2 = last (l # rest i)" unfolding la by (rule h(3))
          moreover have "c2 = c + int (length (rest i))" unfolding le using h(4) g(5) by simp
          moreover have "sumOK i agg" unfolding so by (rule h(5))
          ultimately show ?thesis unfolding LP_def Inr lc2 using all by simp
        qed
      qed
    qed
  qed
  have rest0: "rest 0 = keysOf node"
    by (simp add: rest_def kcs_def cs_def ks_def keysOf_eq[OF lv])
  have allc: "(\<forall>c \<in> set cs. P c) \<longleftrightarrow> (\<forall>j. 0 \<le> j \<and> j \<le> n \<longrightarrow> P (cs ! j))" for P
    by (auto simp: all_set_conv_all_nth lc less_Suc_eq_le)
  have iso: "internalSizesOK node \<longleftrightarrow>
      (\<forall>j. 0 \<le> j \<and> j \<le> n \<longrightarrow> internalSizesOK (cs ! j)) \<and> sumOK 0 0"
    using allc[of internalSizesOK]
    by (subst internalSizesOK_iff) (auto simp: nl sumOK_def cs_def n_def add.commute)
  have fo: "fillOK m node \<longleftrightarrow> (\<forall>j. 0 \<le> j \<and> j \<le> n \<longrightarrow> childOK j)"
    using allc[of "\<lambda>c. m \<le> len c \<and> fillOK m c"]
    by (subst fillOK_iff) (auto simp: childOK_def cs_def)
  have fin_eq: "(\<lambda>(last_k, counter, agg).
        if \<not> len node < length (children node) then Inl OutOfBounds
        else bindE (doTraverse ORDER True (children node ! len node) (last_k, counter) p)
          (\<lambda>lc'. if agg + size_f (children node ! len node) + of_nat (len node) \<noteq> size_f node
                 then Inl SizeMismatch else Inr lc')) = fin"
    using lc by (simp add: fin_def cs_def n_def)
  have d: "doTraverse ORDER hp node (l, c) p =
      (if hp \<and> n < m then Inl FillViolation else cont 0 l c 0)"
    by (subst doTraverse.simps) (simp add: nl fin_eq cont_def n_def m_def)
  show ?thesis
  proof (cases "hp \<and> n < m")
    case True
    then show ?thesis unfolding d by (simp add: travPost_def m_def n_def)
  next
    case False
    then have f: "hp \<longrightarrow> m \<le> len node" by (auto simp: n_def)
    have d': "doTraverse ORDER hp node (l, c) p = cont 0 l c 0"
      by (rule trans[OF d]) (rule if_not_P[OF False])
    from loop[of 0 l c 0] have lp: "LP 0 l c 0 (cont 0 l c 0)" by simp
    show ?thesis
    proof (cases "cont 0 l c 0")
      case (Inl e)
      with lp have "(e = FillViolation \<and> \<not> fillOK m node)
          \<or> (e = OrderViolation \<and> \<not> sorted (l # keysOf node))
          \<or> (e = SizeMismatch \<and> \<not> internalSizesOK node)"
        unfolding LP_def rest0 iso fo by auto
      with Inl show ?thesis unfolding d' travPost_def m_def[symmetric] by auto
    next
      case (Inr lc2)
      obtain l2 c2 where lc2: "lc2 = (l2, c2)" by (cases lc2)
      from lp Inr lc2 have "sorted (l # keysOf node)" "internalSizesOK node" "fillOK m node"
        "l2 = last (l # keysOf node)" "c2 = c + int (length (keysOf node))"
        unfolding LP_def rest0 iso fo by simp_all
      with f show ?thesis unfolding d' Inr lc2 travPost_def m_def[symmetric] by simp
    qed
  qed
qed

lemma doTraverse_spec:
  "shaped h node \<Longrightarrow> travPost (ORDER div 2 - 1) hp node l c (doTraverse ORDER hp node (l, c) p)"
proof (induction h arbitrary: node hp l c)
  case 0
  then show ?case by (rule doTraverse_leaf)
next
  case (Suc h)
  show ?case
  proof (rule doTraverse_node[OF Suc.prems])
    fix c hp l cn assume "c \<in> set (children node)"
    with Suc.prems have "shaped h c" by (simp add: shaped_Suc_iff)
    then show "travPost (ORDER div 2 - 1) hp c l cn (doTraverse ORDER hp c (l, cn) p)"
      by (rule Suc.IH)
  qed
qed

text \<open>C6, as amended. \<open>traverse\<close> validates whatever its flag, which only selects the
  printing. On a tree of the shape of a B-tree whose keys are all at least -1, it returns
  without raising exactly when the keys of the in-order walk never decrease (equal
  neighbours are accepted), every internal node has \<open>size = len + \<Sum> children.size\<close>, and
  every node below the root has at least \<open>ORDER / 2 - 1\<close> keys; and when it raises, the
  invariant that the exception names is broken.\<close>

theorem traverse_validates:
  assumes "shaped h t" and "\<forall>k \<in> set (keysOf t). - 1 \<le> k"
  shows "(traverse ORDER t p = Inr () \<longleftrightarrow>
            sorted (keysOf t) \<and> internalSizesOK t \<and> fillOK (minFillCode ORDER) t)
       \<and> (traverse ORDER t p = Inl e \<longrightarrow>
            (e = FillViolation \<and> \<not> fillOK (minFillCode ORDER) t)
            \<or> (e = OrderViolation \<and> \<not> sorted (keysOf t))
            \<or> (e = SizeMismatch \<and> \<not> internalSizesOK t))"
proof -
  let ?r = "doTraverse ORDER False t (- 1, 0) p"
  have tp: "travPost (ORDER div 2 - 1) False t (- 1) 0 ?r"
    by (rule doTraverse_spec[OF assms(1)])
  have so: "sorted (- 1 # keysOf t) \<longleftrightarrow> sorted (keysOf t)"
    using assms(2) by simp
  have tr: "traverse ORDER t p = bindE ?r (\<lambda>_. Inr ())"
    by (simp add: traverse_def)
  show ?thesis
  proof (cases ?r)
    case (Inl e')
    with tp have "(e' = FillViolation \<and> \<not> fillOK (minFillCode ORDER) t)
            \<or> (e' = OrderViolation \<and> \<not> sorted (keysOf t))
            \<or> (e' = SizeMismatch \<and> \<not> internalSizesOK t)"
      unfolding travPost_def so minFillCode_def by simp
    moreover have "traverse ORDER t p = Inl e'" by (simp add: tr Inl)
    ultimately show ?thesis by auto
  next
    case (Inr lc)
    obtain l c where "lc = (l, c)" by (cases lc)
    with tp Inr have "sorted (keysOf t)" "internalSizesOK t" "fillOK (minFillCode ORDER) t"
      unfolding travPost_def so minFillCode_def by simp_all
    moreover have "traverse ORDER t p = Inr ()" by (simp add: tr Inr)
    ultimately show ?thesis by simp
  qed
qed

theorem traverse_validates_witness:
  "shaped 1 (BTreeNode False 4 [2] [()] [BTreeNode True 1 [1] [()] [], BTreeNode True 2 [3, 4] [(), ()] []])
   \<and> traverse 4 (BTreeNode False 4 [2] [()]
        [BTreeNode True 1 [1] [()] [], BTreeNode True 2 [3, 4] [(), ()] []]) False = Inr ()
   \<and> sorted (keysOf (BTreeNode False 4 [2::int] [()]
        [BTreeNode True 1 [1] [()] [], BTreeNode True 2 [3, 4] [(), ()] []]))
   \<and> internalSizesOK (BTreeNode False 4 [2::int] [()]
        [BTreeNode True 1 [1] [()] [], BTreeNode True 2 [3, 4] [(), ()] []])
   \<and> fillOK (minFillCode 4) (BTreeNode False 4 [2::int] [()]
        [BTreeNode True 1 [1] [()] [], BTreeNode True 2 [3, 4] [(), ()] []])
   \<and> shaped 0 (BTreeNode True 2 [2, 1] [(), ()] [])
   \<and> traverse 4 (BTreeNode True 2 [2, 1] [(), ()] []) False = Inl OrderViolation
   \<and> \<not> sorted (keysOf (BTreeNode True 2 [2::int, 1] [(), ()] []))"
proof -
  let ?T = "BTreeNode False 4 [2::int] [()]
        [BTreeNode True 1 [1] [()] [], BTreeNode True 2 [3, 4] [(), ()] []]"
  let ?B = "BTreeNode True 2 [2::int, 1] [(), ()] []"
  have a: "shaped 1 ?T" "\<forall>k \<in> set (keysOf ?T). - 1 \<le> k" "traverse 4 ?T False = Inr ()"
    by code_simp+
  have b: "shaped 0 ?B" "\<forall>k \<in> set (keysOf ?B). - 1 \<le> k" "traverse 4 ?B False = Inl OrderViolation"
    by code_simp+
  from traverse_validates[OF a(1,2), of 4 False OrderViolation]
       traverse_validates[OF b(1,2), of 4 False OrderViolation] a b
  show ?thesis by simp
qed

subsection \<open>Insertion\<close>

lemma sum_list_nth_split:
  "i < length xs \<Longrightarrow>
   sum_list (map f xs) = sum_list (map f (take i xs)) + f (xs ! i) + sum_list (map f (drop (Suc i) xs))"
  by (subst id_take_nth_drop[of i xs]) (simp_all add: add.assoc)

lemma inter_Cons_append: "inter ((a @ b) # cs) es = a @ inter (b # cs) es"
  by (cases es) simp_all

lemma inter_append_Suc:
  "length cs = Suc (length es) \<Longrightarrow>
   inter (cs @ cs2) (es @ e # es2) = inter cs es @ e # inter cs2 es2"
proof (induction es arbitrary: cs)
  case Nil
  then obtain c where "cs = [c]" by (cases cs) auto
  then show ?case by simp
next
  case (Cons x es)
  then obtain c cs' where cs: "cs = c # cs'" "length cs' = Suc (length es)" by (cases cs) auto
  with Cons.IH[of cs'] show ?case by simp
qed

lemma inter_Nil_left [simp]: "inter [] es = es"
  by simp

lemma inorder_leaf: "children n = [] \<Longrightarrow> inorder n = zip (keys n) (vals n)"
  by (subst inorder_eq) simp

lemma of_nat_diff_word: "b \<le> a \<Longrightarrow> (of_nat (a - b) :: 32 word) = of_nat a - of_nat b"
  by simp

text \<open>The two halves of a split.\<close>

lemma splitNewChild_sel:
  "isLeaf (splitNewChild ORDER c) = isLeaf c"
  "keys (splitNewChild ORDER c) = drop (ORDER div 2) (keys c)"
  "vals (splitNewChild ORDER c) = drop (ORDER div 2) (vals c)"
  "children (splitNewChild ORDER c) = (if isLeaf c then [] else drop (ORDER div 2) (children c))"
  "size_f (splitNewChild ORDER c) = of_nat (ORDER - 1 - ORDER div 2)
      + sum_list (map size_f (if isLeaf c then [] else drop (ORDER div 2) (children c)))"
  by (simp_all add: splitNewChild_def Let_def)

lemma splitOldChild_sel:
  "isLeaf (splitOldChild ORDER c) = isLeaf c"
  "keys (splitOldChild ORDER c) = take (ORDER div 2 - 1) (keys c)"
  "vals (splitOldChild ORDER c) = take (ORDER div 2 - 1) (vals c)"
  "children (splitOldChild ORDER c) = (if isLeaf c then [] else take (ORDER div 2) (children c))"
  "size_f (splitOldChild ORDER c) = size_f c - (size_f (splitNewChild ORDER c) + 1)"
  by (simp_all add: splitOldChild_def)

lemma split_halves_shaped:
  assumes "2 \<le> ORDER" "shaped h c" "len c = ORDER - 1"
  shows "shaped h (splitOldChild ORDER c)" "shaped h (splitNewChild ORDER c)"
proof -
  have q: "ORDER div 2 \<ge> 1" "ORDER div 2 \<le> ORDER - 1" using assms(1) by auto
  show "shaped h (splitOldChild ORDER c)"
  proof (cases h)
    case 0
    with assms show ?thesis by (simp add: shaped_0_iff splitOldChild_sel)
  next
    case (Suc h')
    with assms q show ?thesis
      by (auto simp: shaped_Suc_iff splitOldChild_sel min_def dest: in_set_takeD)
  qed
  show "shaped h (splitNewChild ORDER c)"
  proof (cases h)
    case 0
    with assms show ?thesis by (simp add: shaped_0_iff splitNewChild_sel)
  next
    case (Suc h')
    with assms q show ?thesis
      by (auto simp: shaped_Suc_iff splitNewChild_sel dest: in_set_dropD)
  qed
qed

lemma split_halves_len:
  assumes "2 \<le> ORDER" "len c = ORDER - 1"
  shows "len (splitOldChild ORDER c) = ORDER div 2 - 1"
    "len (splitNewChild ORDER c) = ORDER - 1 - ORDER div 2"
  using assms by (auto simp: splitOldChild_sel splitNewChild_sel)

lemma split_halves_sizes:
  assumes "2 \<le> ORDER" "shaped h c" "sizesOK c" "len c = ORDER - 1"
  shows "sizesOK (splitOldChild ORDER c)" "sizesOK (splitNewChild ORDER c)"
    "size_f (splitOldChild ORDER c) + size_f (splitNewChild ORDER c) + 1 = size_f c"
proof -
  let ?q = "ORDER div 2"
  have q: "?q \<ge> 1" "?q \<le> ORDER - 1" using assms(1) by auto
  from assms(3) have sz: "size_f c = of_nat (len c) + sum_list (map size_f (children c))"
    and ch: "\<forall>x \<in> set (children c). sizesOK x"
    by (subst (asm) sizesOK_iff, simp)+
  show n: "sizesOK (splitNewChild ORDER c)"
    using ch assms q
    by (subst sizesOK_iff) (auto simp: splitNewChild_sel dest: in_set_dropD)
  show s: "size_f (splitOldChild ORDER c) + size_f (splitNewChild ORDER c) + 1 = size_f c"
    by (simp add: splitOldChild_sel)
  have lc: "isLeaf c \<Longrightarrow> children c = []" using assms(2) by (cases h) (auto simp: shaped_0_iff shaped_Suc_iff)
  have sum: "sum_list (map size_f (children c)) =
      sum_list (map size_f (take ?q (children c))) + sum_list (map size_f (drop ?q (children c)))"
    by (subst append_take_drop_id[of ?q "children c", symmetric], subst map_append, subst sum_list.append) (rule refl)
  have of: "(of_nat (ORDER - 1) :: 32 word) = of_nat (?q - 1) + of_nat (ORDER - 1 - ?q) + 1"
  proof -
    have "ORDER - 1 = (?q - 1) + (ORDER - 1 - ?q) + 1" using q by arith
    then have "(of_nat (ORDER - 1) :: 32 word) = of_nat ((?q - 1) + (ORDER - 1 - ?q) + 1)" by simp
    then show ?thesis by (simp only: of_nat_add of_nat_1)
  qed
  have so: "size_f (splitOldChild ORDER c) = of_nat (len (splitOldChild ORDER c))
      + sum_list (map size_f (children (splitOldChild ORDER c)))"
  proof (cases "isLeaf c")
    case True
    with lc sz assms(4) of q show ?thesis
      by (simp add: splitOldChild_sel splitNewChild_sel min_def)
  next
    case False
    with sz sum assms(4) of q show ?thesis
      by (simp add: splitOldChild_sel splitNewChild_sel min_def)
  qed
  show "sizesOK (splitOldChild ORDER c)"
    using ch so
    by (subst sizesOK_iff) (auto simp: splitOldChild_sel dest: in_set_takeD)
qed


lemma split_halves_inorder:
  assumes "2 \<le> ORDER" "shaped h c" "len c = ORDER - 1"
  shows "inorder c = inorder (splitOldChild ORDER c)
           @ (keys c ! (ORDER div 2 - 1), vals c ! (ORDER div 2 - 1)) # inorder (splitNewChild ORDER c)"
proof -
  let ?q = "ORDER div 2"
  let ?es = "zip (keys c) (vals c)"
  have q: "?q \<ge> 1" "?q \<le> ORDER - 1" using assms(1) by auto
  have lv: "length (vals c) = len c" by (rule shaped_vals[OF assms(2)])
  have les: "length ?es = ORDER - 1" using lv assms(3) by simp
  have m: "?q - 1 < length ?es" using q les by simp
  have es: "?es = take (?q - 1) ?es @ ?es ! (?q - 1) # drop ?q ?es"
    using id_take_nth_drop[OF m] q by simp
  have em: "?es ! (?q - 1) = (keys c ! (?q - 1), vals c ! (?q - 1))"
    using m lv by simp
  have o: "inorder (splitOldChild ORDER c) =
      inter (map inorder (children (splitOldChild ORDER c))) (take (?q - 1) ?es)"
    by (subst inorder_eq) (simp add: splitOldChild_sel take_zip)
  have n: "inorder (splitNewChild ORDER c) =
      inter (map inorder (children (splitNewChild ORDER c))) (drop ?q ?es)"
    by (subst inorder_eq) (simp add: splitNewChild_sel drop_zip)
  show ?thesis
  proof (cases h)
    case 0
    with assms(2) have lf: "isLeaf c" "children c = []" by (simp_all add: shaped_0_iff)
    have "inorder c = ?es" using lf by (simp add: inorder_leaf)
    also note es
    finally show ?thesis using lf em by (simp add: o n splitOldChild_sel splitNewChild_sel)
  next
    case (Suc h')
    with assms(2) have nl: "\<not> isLeaf c" and lc: "length (children c) = Suc (len c)"
      by (simp_all add: shaped_Suc_iff)
    let ?ics = "map inorder (children c)"
    have "length ?ics = ORDER" using lc assms(1,3) by simp
    then have "length (take ?q ?ics) = ?q" using q by simp
    moreover have "length (take (?q - 1) ?es) = ?q - 1" using q les by simp
    ultimately have l1: "length (take ?q ?ics) = Suc (length (take (?q - 1) ?es))"
      using q by simp
    have "inorder c = inter ?ics ?es" by (rule inorder_eq)
    also have "\<dots> = inter (take ?q ?ics @ drop ?q ?ics) (take (?q - 1) ?es @ ?es ! (?q - 1) # drop ?q ?es)"
      using es by simp
    also have "\<dots> = inter (take ?q ?ics) (take (?q - 1) ?es) @ ?es ! (?q - 1) # inter (drop ?q ?ics) (drop ?q ?es)"
      by (rule inter_append_Suc[OF l1])
    finally show ?thesis
      using nl em by (simp add: o n splitOldChild_sel splitNewChild_sel take_map drop_map)
  qed
qed

lemma split_halves_cap:
  assumes "2 \<le> ORDER" "capOK ORDER c"
  shows "capOK ORDER (splitOldChild ORDER c)" "capOK ORDER (splitNewChild ORDER c)"
proof -
  from assms(2) have l: "len c \<le> ORDER - 1" and ch: "\<forall>x \<in> set (children c). capOK ORDER x"
    by (subst (asm) capOK_iff, simp)+
  show "capOK ORDER (splitOldChild ORDER c)"
    using l ch by (subst capOK_iff) (auto simp: splitOldChild_sel dest: in_set_takeD)
  show "capOK ORDER (splitNewChild ORDER c)"
    using l ch by (subst capOK_iff) (auto simp: splitNewChild_sel dest: in_set_dropD)
qed

lemma split_halves_fill:
  assumes "fillOK m c"
  shows "fillOK m (splitOldChild ORDER c)" "fillOK m (splitNewChild ORDER c)"
proof -
  from assms have ch: "\<forall>x \<in> set (children c). m \<le> len x \<and> fillOK m x"
    by (subst (asm) fillOK_iff)
  show "fillOK m (splitOldChild ORDER c)"
    using ch by (subst fillOK_iff) (auto simp: splitOldChild_sel dest: in_set_takeD)
  show "fillOK m (splitNewChild ORDER c)"
    using ch by (subst fillOK_iff) (auto simp: splitNewChild_sel dest: in_set_dropD)
qed

text \<open>\<open>splitChild\<close> on the parent.\<close>

lemma splitChild_sel:
  assumes "i < length (children p)" "len (children p ! i) = ORDER - 1"
  shows "splitChild ORDER p i = Inr (BTreeNode (isLeaf p) (size_f p)
            (insertAt i (keys (children p ! i) ! (ORDER div 2 - 1)) (keys p))
            (insertAt i (vals (children p ! i) ! (ORDER div 2 - 1)) (vals p))
            (take i (children p) @ splitOldChild ORDER (children p ! i)
               # splitNewChild ORDER (children p ! i) # drop (Suc i) (children p)))"
  using assms by (simp add: splitChild_def Let_def)

lemma inorder_node:
  "inorder (BTreeNode l s ks vs cs) = inter (map inorder cs) (zip ks vs)"
  by simp

lemma splitChild_props:
  assumes o: "2 \<le> ORDER" and sh: "shaped (Suc h) p" and i: "i \<le> len p"
    and full: "len (children p ! i) = ORDER - 1"
  shows "\<exists>p'. splitChild ORDER p i = Inr p'
      \<and> shaped (Suc h) p' \<and> size_f p' = size_f p
      \<and> keys p' = insertAt i (keys (children p ! i) ! (ORDER div 2 - 1)) (keys p)
      \<and> children p' = take i (children p) @ splitOldChild ORDER (children p ! i)
               # splitNewChild ORDER (children p ! i) # drop (Suc i) (children p)
      \<and> inorder p' = inorder p
      \<and> (sizesOK p \<longrightarrow> sizesOK p')
      \<and> (capOK ORDER p \<and> len p < ORDER - 1 \<longrightarrow> capOK ORDER p')
      \<and> (fillOK (ORDER div 2 - 1) p \<longrightarrow> fillOK (ORDER div 2 - 1) p')"
proof -
  let ?c = "children p ! i"
  let ?o = "splitOldChild ORDER ?c" and ?n = "splitNewChild ORDER ?c"
  let ?mk = "keys ?c ! (ORDER div 2 - 1)" and ?mv = "vals ?c ! (ORDER div 2 - 1)"
  let ?cs = "take i (children p) @ ?o # ?n # drop (Suc i) (children p)"
  let ?p' = "BTreeNode (isLeaf p) (size_f p) (insertAt i ?mk (keys p)) (insertAt i ?mv (vals p)) ?cs"
  from sh have nl: "\<not> isLeaf p" and lv: "length (vals p) = len p"
    and lc: "length (children p) = Suc (len p)" and shc: "\<forall>c \<in> set (children p). shaped h c"
    by (simp_all add: shaped_Suc_iff)
  from i lc have il: "i < length (children p)" by simp
  then have cin: "?c \<in> set (children p)" by simp
  with shc have shch: "shaped h ?c" by simp
  note hs = split_halves_shaped[OF o shch full]
  have r: "splitChild ORDER p i = Inr ?p'" by (rule splitChild_sel[OF il full])
  have cs_set: "set ?cs \<subseteq> insert ?o (insert ?n (set (children p)))"
    by (auto dest: in_set_takeD in_set_dropD)
  have sh': "shaped (Suc h) ?p'"
    using nl lv lc i il shc hs cs_set by (auto simp: insertAt_def min_def)
  have io: "inorder ?p' = inorder p"
  proof -
    let ?ics = "map inorder (children p)" and ?es = "zip (keys p) (vals p)"
    have l1: "length (take i ?ics) = length (take i ?es)" using i lv lc by simp
    have z: "zip (insertAt i ?mk (keys p)) (insertAt i ?mv (vals p)) = take i ?es @ (?mk, ?mv) # drop i ?es"
      using i lv by (simp add: insertAt_def zip_append take_zip drop_zip)
    have "inorder ?p' = inter (take i ?ics @ (inorder ?o # inorder ?n # drop (Suc i) ?ics))
                              (take i ?es @ (?mk, ?mv) # drop i ?es)"
      using z by (simp add: take_map drop_map)
    also have "\<dots> = inter (take i ?ics) (take i ?es)
        @ inter (inorder ?o # inorder ?n # drop (Suc i) ?ics) ((?mk, ?mv) # drop i ?es)"
      by (rule inter_append[OF l1])
    also have "inter (inorder ?o # inorder ?n # drop (Suc i) ?ics) ((?mk, ?mv) # drop i ?es)
        = inter ((inorder ?o @ (?mk, ?mv) # inorder ?n) # drop (Suc i) ?ics) (drop i ?es)"
      by (cases "drop i ?es") simp_all
    also have "inorder ?o @ (?mk, ?mv) # inorder ?n = inorder ?c"
      by (rule split_halves_inorder[OF o shch full, symmetric])
    also have "inter (take i ?ics) (take i ?es) @ inter (inorder ?c # drop (Suc i) ?ics) (drop i ?es)
        = inter (take i ?ics @ inorder ?c # drop (Suc i) ?ics) (take i ?es @ drop i ?es)"
      by (rule inter_append[OF l1, symmetric])
    also have "take i ?ics @ inorder ?c # drop (Suc i) ?ics = ?ics"
      using il id_take_nth_drop[of i ?ics] by simp
    also have "inter ?ics (take i ?es @ drop i ?es) = inorder p"
      by (simp add: inorder_eq[of p, symmetric])
    finally show ?thesis .
  qed
  have so: "sizesOK ?p'" if s: "sizesOK p"
  proof -
    from s have sz: "size_f p = of_nat (len p) + sum_list (map size_f (children p))"
      and ch: "\<forall>x \<in> set (children p). sizesOK x"
      by (subst (asm) sizesOK_iff, simp)+
    from ch cin have sc: "sizesOK ?c" by simp
    note hz = split_halves_sizes[OF o shch sc full]
    have "sum_list (map size_f ?cs) + 1 = sum_list (map size_f (children p))"
      using sum_list_nth_split[OF il, of size_f] hz(3) by (simp add: algebra_simps)
    then have "size_f p = of_nat (Suc (len p)) + sum_list (map size_f ?cs)"
      using sz by (simp add: algebra_simps)
    moreover have "\<forall>x \<in> set ?cs. sizesOK x" using cs_set ch hz(1,2) by auto
    ultimately show ?thesis using i by (simp add: insertAt_def min_def)
  qed
  have co: "capOK ORDER ?p'" if c: "capOK ORDER p" and nf: "len p < ORDER - 1"
  proof -
    from c have ch: "\<forall>x \<in> set (children p). capOK ORDER x"
      by (subst (asm) capOK_iff) simp
    with cin have "capOK ORDER ?c" by simp
    note hc = split_halves_cap[OF o this]
    have "\<forall>x \<in> set ?cs. capOK ORDER x" using cs_set ch hc by auto
    then show ?thesis using nf i by (simp add: insertAt_def min_def)
  qed
  have fo: "fillOK (ORDER div 2 - 1) ?p'" if f: "fillOK (ORDER div 2 - 1) p"
  proof -
    from f have ch: "\<forall>x \<in> set (children p). ORDER div 2 - 1 \<le> len x \<and> fillOK (ORDER div 2 - 1) x"
      by (subst (asm) fillOK_iff)
    with cin have "fillOK (ORDER div 2 - 1) ?c" by simp
    note hf = split_halves_fill[OF this, of ORDER]
    note hl = split_halves_len[OF o full]
    have "ORDER div 2 - 1 \<le> ORDER - 1 - ORDER div 2" by arith
    with hl have "ORDER div 2 - 1 \<le> len ?o" "ORDER div 2 - 1 \<le> len ?n" by simp_all
    with cs_set ch hf have "\<forall>x \<in> set ?cs. ORDER div 2 - 1 \<le> len x \<and> fillOK (ORDER div 2 - 1) x"
      by auto
    then show ?thesis by simp
  qed
  from r sh' io so co fo show ?thesis by (simp add: insertAt_def)
qed

lemma insList_append1:
  "\<forall>x \<in> set xs. fst x < k \<Longrightarrow> insList k v (xs @ ys) = xs @ insList k v ys"
  by (simp add: insList_def takeWhile_append2 dropWhile_append2)

lemma insList_all_less: "\<forall>x \<in> set xs. fst x < k \<Longrightarrow> insList k v xs = xs @ [(k, v)]"
  by (simp add: insList_def)

lemma insList_append2:
  assumes "ys = [] \<or> k \<le> fst (hd ys)"
  shows "insList k v (xs @ ys) = insList k v xs @ ys"
proof (cases "\<forall>x \<in> set xs. fst x < k")
  case True
  from assms have "takeWhile (\<lambda>e. fst e < k) ys = []" "dropWhile (\<lambda>e. fst e < k) ys = ys"
    by (cases ys; auto)+
  then have "insList k v ys = (k, v) # ys" by (simp add: insList_def)
  with True show ?thesis by (simp add: insList_append1 insList_all_less)
next
  case False
  then obtain x where "x \<in> set xs" "\<not> fst x < k" by blast
  then show ?thesis by (simp add: insList_def takeWhile_append1 dropWhile_append1)
qed

lemma mset_insList: "mset (insList k v xs) = mset xs + {#(k, v)#}"
proof -
  have "mset (takeWhile (\<lambda>e. fst e < k) xs @ dropWhile (\<lambda>e. fst e < k) xs) = mset xs" by simp
  then show ?thesis unfolding insList_def by (simp del: takeWhile_dropWhile_id)
qed

lemma takeWhile_zip_locate:
  "length ks = length vs \<Longrightarrow>
   takeWhile (\<lambda>e. fst e < k) (zip ks vs) = take (find_if_not_less ks k) (zip ks vs)
   \<and> dropWhile (\<lambda>e. fst e < k) (zip ks vs) = drop (find_if_not_less ks k) (zip ks vs)"
  by (induction ks vs rule: list_induct2) auto

lemma insList_leaf:
  "length ks = length vs \<Longrightarrow>
   insList k v (zip ks vs) = zip (insertAt (find_if_not_less ks k) k ks) (insertAt (find_if_not_less ks k) v vs)"
  using find_if_not_less_le[of ks k]
  by (simp add: insList_def takeWhile_zip_locate insertAt_def zip_append take_zip drop_zip)

text \<open>The entries of an internal node around its child \<open>j\<close>.\<close>

lemma inorder_split_at:
  assumes lv: "length (vals p) = len p" and lc: "length (children p) = Suc (len p)" and j: "j \<le> len p"
  shows "inorder p = preOf p j @ inorder (children p ! j) @ postOf p j"
proof -
  let ?ics = "map inorder (children p)" and ?es = "zip (keys p) (vals p)"
  have les: "length ?es = len p" using lv by simp
  have l1: "length (take j ?ics) = length (take j ?es)" using j lc les by simp
  have "inorder p = inter (take j ?ics @ drop j ?ics) (take j ?es @ drop j ?es)"
    by (simp add: inorder_eq[of p, symmetric])
  also have "\<dots> = preOf p j @ inter (drop j ?ics) (drop j ?es)"
    unfolding preOf_def by (rule inter_append[OF l1])
  also have "inter (drop j ?ics) (drop j ?es) = inorder (children p ! j) @ postOf p j"
  proof (cases "j < len p")
    case True
    have "inter (drop j ?ics) (drop j ?es) = ?ics ! j @ ?es ! j # inter (drop (Suc j) ?ics) (drop (Suc j) ?es)"
      by (rule inter_drop_step) (use True les lc in simp_all)
    with True lv lc show ?thesis by (simp add: postOf_def)
  next
    case False
    with j have j: "j = length ?es" using les by simp
    have "inter (drop (length ?es) ?ics) (drop (length ?es) ?es) = ?ics ! length ?es"
      by (rule inter_drop_last) (use les lc in simp)
    with j False lc les show ?thesis by (simp add: postOf_def)
  qed
  finally show ?thesis .
qed

lemma preOf_Suc:
  assumes lv: "length (vals p) = len p" and lc: "length (children p) = Suc (len p)" and j: "j < len p"
  shows "preOf p (Suc j) = preOf p j @ inorder (children p ! j) @ [(keys p ! j, vals p ! j)]"
proof -
  let ?ics = "map inorder (children p)" and ?es = "zip (keys p) (vals p)"
  have l1: "length (take j ?ics) = length (take j ?es)" using j lc lv by simp
  have "preOf p (Suc j) = inter (take j ?ics @ [?ics ! j]) (take j ?es @ [?es ! j])"
    unfolding preOf_def using j lc lv by (simp add: take_Suc_conv_app_nth)
  also have "\<dots> = preOf p j @ inter [?ics ! j] [?es ! j]"
    unfolding preOf_def by (rule inter_append[OF l1])
  finally show ?thesis using j lc lv by simp
qed

lemma preOf_0 [simp]: "preOf p 0 = []"
  by (simp add: preOf_def)

lemma postOf_len [simp]: "postOf p (len p) = []"
  by (simp add: postOf_def)

lemma postOf_step:
  assumes lv: "length (vals p) = len p" and lc: "length (children p) = Suc (len p)" and j: "j < len p"
  shows "postOf p j = (keys p ! j, vals p ! j) # inorder (children p ! Suc j) @ postOf p (Suc j)"
proof -
  from j have "Suc j \<le> len p" by simp
  from inorder_split_at[OF lv lc this] inorder_split_at[OF lv lc, of j] j
  have "preOf p j @ inorder (children p ! j) @ postOf p j
      = preOf p (Suc j) @ inorder (children p ! Suc j) @ postOf p (Suc j)" by simp
  then show ?thesis unfolding preOf_Suc[OF lv lc j] by simp
qed

text \<open>Replacing the child \<open>j\<close> leaves the entries around it.\<close>

lemma preOf_cong:
  "take j (children p') = take j (children p) \<Longrightarrow> take j (keys p') = take j (keys p)
   \<Longrightarrow> take j (vals p') = take j (vals p) \<Longrightarrow> preOf p' j = preOf p j"
  by (simp add: preOf_def take_map take_zip)

lemma postOf_cong:
  "drop (Suc j) (children p') = drop (Suc j) (children p) \<Longrightarrow> drop j (keys p') = drop j (keys p)
   \<Longrightarrow> drop j (vals p') = drop j (vals p) \<Longrightarrow> length (vals p) = len p
   \<Longrightarrow> length (vals p') = len p' \<Longrightarrow> postOf p' j = postOf p j"
proof -
  assume a: "drop (Suc j) (children p') = drop (Suc j) (children p)" "drop j (keys p') = drop j (keys p)"
    "drop j (vals p') = drop j (vals p)" "length (vals p) = len p" "length (vals p') = len p'"
  have z: "drop j (zip (keys p') (vals p')) = drop j (zip (keys p) (vals p))"
    using a by (simp add: drop_zip)
  have l: "len p' - j = len p - j" using arg_cong[OF a(2), of length] by simp
  have pf: "postOf q j = (case drop j (zip (keys q) (vals q)) of [] \<Rightarrow> []
      | e # es \<Rightarrow> e # inter (drop (Suc j) (map inorder (children q))) es)"
    if "length (vals q) = len q" for q :: "('a, 'b) node"
  proof (cases "j < len q")
    case True
    then have "zip (keys q) (vals q) ! j # drop (Suc j) (zip (keys q) (vals q)) = drop j (zip (keys q) (vals q))"
      using that by (intro Cons_nth_drop_Suc) simp
    then have "drop j (zip (keys q) (vals q)) = (keys q ! j, vals q ! j) # drop (Suc j) (zip (keys q) (vals q))"
      using True that by simp
    with True that show ?thesis by (simp add: postOf_def)
  next
    case False
    with that show ?thesis by (simp add: postOf_def)
  qed
  show ?thesis unfolding pf[OF a(4)] pf[OF a(5)] z drop_map a(1) by (rule refl)
qed


lemma shaped_lens:
  "shaped (Suc h) p \<Longrightarrow> length (vals p) = len p"
  "shaped (Suc h) p \<Longrightarrow> length (children p) = Suc (len p)"
  by (simp_all add: shaped_Suc_iff)

lemma inorder_update_child:
  assumes lv: "length (vals p) = len p" and lc: "length (children p) = Suc (len p)" and j: "j \<le> len p"
  shows "inorder (BTreeNode l s (keys p) (vals p) (list_update (children p) j c))
           = preOf p j @ inorder c @ postOf p j"
proof -
  let ?p' = "BTreeNode l s (keys p) (vals p) (list_update (children p) j c)"
  have "inorder ?p' = preOf ?p' j @ inorder (children ?p' ! j) @ postOf ?p' j"
    by (rule inorder_split_at) (use lv lc j in simp_all)
  moreover have "preOf ?p' j = preOf p j" by (rule preOf_cong) simp_all
  moreover have "postOf ?p' j = postOf p j" by (rule postOf_cong) (use lv in simp_all)
  moreover have "children ?p' ! j = c" using j lc by simp
  ultimately show ?thesis by simp
qed

lemma sorted_sub:
  assumes lv: "length (vals p) = len p" and lc: "length (children p) = Suc (len p)" and j: "j \<le> len p"
    and s: "sorted (keysOf p)"
  shows "sorted (map fst (preOf p j))" "sorted (keysOf (children p ! j))" "sorted (map fst (postOf p j))"
  using s unfolding keysOf_def inorder_split_at[OF lv lc j]
  by (simp_all add: sorted_append)

lemma sorted_le_last': "sorted xs \<Longrightarrow> x \<in> set xs \<Longrightarrow> x \<le> last xs"
  by (induction xs) (auto split: if_splits)

lemma sorted_bounds:
  assumes lv: "length (vals p) = len p" and lc: "length (children p) = Suc (len p)" and j: "j \<le> len p"
    and s: "sorted (keysOf p)"
  shows "0 < j \<Longrightarrow> \<forall>x \<in> set (preOf p j). fst x \<le> keys p ! (j - 1)"
    and "j < len p \<Longrightarrow> \<forall>x \<in> set (postOf p j). keys p ! j \<le> fst x"
proof -
  note ss = sorted_sub[OF lv lc j s]
  show "\<forall>x \<in> set (preOf p j). fst x \<le> keys p ! (j - 1)" if "0 < j"
  proof -
    from that obtain i where i: "j = Suc i" by (cases j) auto
    with j have il: "i < len p" by simp
    have pre: "preOf p j = preOf p i @ inorder (children p ! i) @ [(keys p ! i, vals p ! i)]"
      unfolding i by (rule preOf_Suc[OF lv lc il])
    then have la: "last (map fst (preOf p j)) = keys p ! i" by simp
    show ?thesis
    proof
      fix x assume "x \<in> set (preOf p j)"
      then have "fst x \<in> set (map fst (preOf p j))" by simp
      from sorted_le_last'[OF ss(1) this] la i show "fst x \<le> keys p ! (j - 1)" by simp
    qed
  qed
  show "\<forall>x \<in> set (postOf p j). keys p ! j \<le> fst x" if "j < len p"
  proof -
    define T where "T = tl (postOf p j)"
    from that have eq: "postOf p j = (keys p ! j, vals p ! j) # T"
      by (simp add: postOf_def T_def)
    from ss(3) have "sorted (keys p ! j # map fst T)" by (simp add: eq)
    then have "\<forall>y \<in> set T. keys p ! j \<le> fst y" by simp
    then show ?thesis by (simp add: eq)
  qed
qed

lemma locate_bounds:
  assumes lv: "length (vals p) = len p" and lc: "length (children p) = Suc (len p)" and j: "j \<le> len p"
    and s: "sorted (keysOf p)"
    and lo: "0 < j \<longrightarrow> keys p ! (j - 1) < k" and hi: "j < len p \<longrightarrow> k \<le> keys p ! j"
  shows "\<forall>x \<in> set (preOf p j). fst x < k" "\<forall>x \<in> set (postOf p j). k \<le> fst x"
proof -
  show "\<forall>x \<in> set (preOf p j). fst x < k"
  proof (cases "0 < j")
    case True
    with sorted_bounds(1)[OF lv lc j s] lo show ?thesis by fastforce
  next
    case False
    then show ?thesis by simp
  qed
  show "\<forall>x \<in> set (postOf p j). k \<le> fst x"
  proof (cases "j < len p")
    case True
    with sorted_bounds(2)[OF lv lc j s] hi show ?thesis by fastforce
  next
    case False
    with j have "j = len p" by simp
    then show ?thesis by simp
  qed
qed

lemma locate_le: "locate p k \<le> len p"
  by (simp add: locate_def find_if_not_less_le)

lemma locate_before: "i < locate p k \<Longrightarrow> keys p ! i < k"
  by (simp add: locate_def find_if_not_less_before)

lemma locate_at: "locate p k < len p \<Longrightarrow> k \<le> keys p ! locate p k"
  by (simp add: locate_def find_if_not_less_at)

lemma insertAt_nth:
  "i \<le> length xs \<Longrightarrow> insertAt i x xs ! i = x"
  "i \<le> length xs \<Longrightarrow> j < i \<Longrightarrow> insertAt i x xs ! j = xs ! j"
  "i \<le> length xs \<Longrightarrow> insertAt i x xs ! Suc i = (if i < length xs then xs ! i else undefined) \<or> \<not> i < length xs"
  by (auto simp: insertAt_def nth_append)

lemma insertAt_nth_Suc:
  "i < length xs \<Longrightarrow> insertAt i x xs ! Suc i = xs ! i"
  by (simp add: insertAt_def nth_append)

lemma length_insertAt [simp]: "length (insertAt i x xs) = Suc (length xs)"
  by (simp add: insertAt_def)

lemma insertStep_props:
  assumes o: "2 \<le> ORDER" and sh: "shaped (Suc h) p"
  shows "\<exists>p' j. insertStep ORDER p k = Inr (p', j)
      \<and> shaped (Suc h) p' \<and> j \<le> len p' \<and> size_f p' = size_f p \<and> inorder p' = inorder p
      \<and> len p \<le> len p' \<and> isLeaf p' = isLeaf p
      \<and> (0 < j \<longrightarrow> keys p' ! (j - 1) < k) \<and> (j < len p' \<longrightarrow> k \<le> keys p' ! j)
      \<and> (sizesOK p \<longrightarrow> sizesOK p')
      \<and> (capOK ORDER p \<and> len p < ORDER - 1 \<longrightarrow> capOK ORDER p' \<and> len (children p' ! j) < ORDER - 1)
      \<and> (fillOK (ORDER div 2 - 1) p \<longrightarrow> fillOK (ORDER div 2 - 1) p')"
proof -
  let ?i = "locate p k"
  from sh have nl: "\<not> isLeaf p" and lc: "length (children p) = Suc (len p)"
    by (simp_all add: shaped_Suc_iff)
  have i: "?i \<le> len p" by (rule locate_le)
  with lc have il: "?i < length (children p)" by simp
  have lo: "0 < ?i \<longrightarrow> keys p ! (?i - 1) < k" by (auto intro: locate_before)
  have hi: "?i < len p \<longrightarrow> k \<le> keys p ! ?i" by (auto intro: locate_at)
  show ?thesis
  proof (cases "len (children p ! ?i) = ORDER - 1")
    case False
    have r: "insertStep ORDER p k = Inr (p, ?i)"
      using il False by (simp add: insertStep_def Let_def)
    have c: "len (children p ! ?i) < ORDER - 1" if "capOK ORDER p"
    proof -
      from that have "\<forall>x \<in> set (children p). capOK ORDER x" by (subst (asm) capOK_iff) simp
      with il have "capOK ORDER (children p ! ?i)" by simp
      then have "len (children p ! ?i) \<le> ORDER - 1" by (subst (asm) capOK_iff) simp
      with False show ?thesis by simp
    qed
    from r sh i lo hi c show ?thesis by auto
  next
    case True
    let ?med = "keys (children p ! ?i) ! (ORDER div 2 - 1)"
    from splitChild_props[OF o sh i True] obtain p' where
      sp: "splitChild ORDER p ?i = Inr p'" and sh': "shaped (Suc h) p'" and sz: "size_f p' = size_f p"
      and ks: "keys p' = insertAt ?i ?med (keys p)"
      and cs: "children p' = take ?i (children p) @ splitOldChild ORDER (children p ! ?i)
               # splitNewChild ORDER (children p ! ?i) # drop (Suc ?i) (children p)"
      and io: "inorder p' = inorder p"
      and so: "sizesOK p \<longrightarrow> sizesOK p'"
      and co: "capOK ORDER p \<and> len p < ORDER - 1 \<longrightarrow> capOK ORDER p'"
      and fo: "fillOK (ORDER div 2 - 1) p \<longrightarrow> fillOK (ORDER div 2 - 1) p'"
      by blast
    let ?j = "if k > keys p' ! ?i then ?i + 1 else ?i"
    have r: "insertStep ORDER p k = Inr (p', ?j)"
      using il True sp by (simp add: insertStep_def Let_def)
    have lp: "len p' = Suc (len p)" by (simp add: ks)
    have m: "keys p' ! ?i = ?med" using i by (simp add: ks insertAt_nth)
    have j: "?j \<le> len p'" using i lp by simp
    have lo': "0 < ?j \<longrightarrow> keys p' ! (?j - 1) < k"
    proof (cases "k > keys p' ! ?i")
      case True then show ?thesis by simp
    next
      case False
      have "keys p' ! (?i - 1) = keys p ! (?i - 1)" if "0 < ?i"
        using that i by (simp add: ks insertAt_nth)
      with False lo show ?thesis by auto
    qed
    have hi': "?j < len p' \<longrightarrow> k \<le> keys p' ! ?j"
    proof (cases "k > keys p' ! ?i")
      case True
      have "keys p' ! Suc ?i = keys p ! ?i" if "?i < len p"
        using that by (simp add: ks insertAt_nth_Suc)
      with True hi lp show ?thesis by auto
    next
      case False then show ?thesis by auto
    qed
    note hl = split_halves_len[OF o True]
    have q: "ORDER div 2 \<ge> 1" using o by auto
    have "children p' ! ?i = splitOldChild ORDER (children p ! ?i)"
      "children p' ! Suc ?i = splitNewChild ORDER (children p ! ?i)"
      using il by (simp_all add: cs nth_append)
    with hl o q have "len (children p' ! ?i) < ORDER - 1" "len (children p' ! Suc ?i) < ORDER - 1"
      by auto
    then have c: "len (children p' ! ?j) < ORDER - 1" by simp
    from sh have "isLeaf p' = isLeaf p" using sh' by (simp add: shaped_Suc_iff)
    with r sh' j sz io lp lo' hi' so co fo c show ?thesis by (intro exI[of _ p'] exI[of _ ?j]) simp
  qed
qed

lemma sum_list_update_word:
  fixes f :: "'a \<Rightarrow> 32 word"
  assumes "j < length xs"
  shows "sum_list (map f (list_update xs j y)) = sum_list (map f xs) - f (xs ! j) + f y"
proof -
  have "list_update xs j y = take j xs @ y # drop (Suc j) xs"
    by (rule upd_conv_take_nth_drop[OF assms])
  then have "sum_list (map f (list_update xs j y))
      = sum_list (map f (take j xs)) + f y + sum_list (map f (drop (Suc j) xs))"
    by (simp add: add.assoc)
  with sum_list_nth_split[OF assms, of f] show ?thesis by (simp add: algebra_simps)
qed

lemma in_set_updD: "x \<in> set (list_update xs j y) \<Longrightarrow> x = y \<or> x \<in> set xs"
  using set_update_subset_insert[of xs j y] by auto

lemma insertNonFull_leaf:
  assumes "isLeaf n"
  shows "insertNonFull ORDER n k v = Inr (BTreeNode (isLeaf n) (size_f n + 1)
      (insertAt (locate n k) k (keys n)) (insertAt (locate n k) v (vals n)) (children n))"
  using assms by (subst insertNonFull.simps) (simp add: Let_def)

lemma insertNonFull_node:
  assumes "\<not> isLeaf n" "insertStep ORDER n k = Inr (p, j)" "j < length (children p)"
    "insertNonFull ORDER (children p ! j) k v = Inr c"
  shows "insertNonFull ORDER n k v = Inr (BTreeNode (isLeaf p) (size_f p + 1) (keys p) (vals p)
      (list_update (children p) j c))"
  using assms by (subst insertNonFull.simps) simp

lemma insertNonFull_props:
  assumes o: "2 \<le> ORDER"
  shows "shaped h n \<Longrightarrow> \<exists>n'. insertNonFull ORDER n k v = Inr n'
      \<and> shaped h n' \<and> size_f n' = size_f n + 1 \<and> len n \<le> len n'
      \<and> (sizesOK n \<longrightarrow> sizesOK n')
      \<and> (capOK ORDER n \<and> len n < ORDER - 1 \<longrightarrow> capOK ORDER n')
      \<and> (fillOK (ORDER div 2 - 1) n \<longrightarrow> fillOK (ORDER div 2 - 1) n')
      \<and> mset (inorder n') = add_mset (k, v) (mset (inorder n))
      \<and> (sorted (keysOf n) \<longrightarrow> inorder n' = insList k v (inorder n))"
proof (induction h arbitrary: n)
  case 0
  then have lf: "isLeaf n" and cs: "children n = []" and lv: "length (vals n) = len n"
    by (simp_all add: shaped_0_iff)
  let ?i = "locate n k"
  let ?n' = "BTreeNode (isLeaf n) (size_f n + 1) (insertAt ?i k (keys n)) (insertAt ?i v (vals n))
      (children n)"
  have r: "insertNonFull ORDER n k v = Inr ?n'" by (rule insertNonFull_leaf[OF lf])
  have sh: "shaped 0 ?n'" using lf cs lv by simp
  have io: "inorder ?n' = insList k v (inorder n)"
    using lv cs by (simp add: inorder_leaf insList_leaf locate_def)
  have so: "sizesOK ?n'" if "sizesOK n"
  proof -
    from that have "size_f n = of_nat (len n)" using cs by (subst (asm) sizesOK_iff) simp
    then show ?thesis using cs by simp
  qed
  have co: "capOK ORDER ?n'" if "len n < ORDER - 1" using that cs by simp
  have fo: "fillOK (ORDER div 2 - 1) ?n'" using cs by simp
  from r sh io so co fo show ?case by (intro exI[of _ ?n']) (simp add: mset_insList)
next
  case (Suc h)
  note sh = Suc.prems
  from insertStep_props[OF o sh, of k] obtain p j where
    st: "insertStep ORDER n k = Inr (p, j)" and shp: "shaped (Suc h) p" and j: "j \<le> len p"
    and sz: "size_f p = size_f n" and io: "inorder p = inorder n" and ln: "len n \<le> len p"
    and lfp: "isLeaf p = isLeaf n"
    and lo: "0 < j \<longrightarrow> keys p ! (j - 1) < k" and hi: "j < len p \<longrightarrow> k \<le> keys p ! j"
    and so: "sizesOK n \<longrightarrow> sizesOK p"
    and co: "capOK ORDER n \<and> len n < ORDER - 1 \<longrightarrow> capOK ORDER p \<and> len (children p ! j) < ORDER - 1"
    and fo: "fillOK (ORDER div 2 - 1) n \<longrightarrow> fillOK (ORDER div 2 - 1) p"
    by blast
  note lv = shaped_lens(1)[OF shp] and lc = shaped_lens(2)[OF shp]
  from shp have nl: "\<not> isLeaf p" and shc: "\<forall>c \<in> set (children p). shaped h c"
    by (simp_all add: shaped_Suc_iff)
  from j lc have jl: "j < length (children p)" by simp
  let ?c = "children p ! j"
  from jl shc have shch: "shaped h ?c" by simp
  from Suc.IH[OF shch] obtain c' where
    rc: "insertNonFull ORDER ?c k v = Inr c'" and shc': "shaped h c'"
    and szc: "size_f c' = size_f ?c + 1" and lnc: "len ?c \<le> len c'"
    and soc: "sizesOK ?c \<longrightarrow> sizesOK c'"
    and coc: "capOK ORDER ?c \<and> len ?c < ORDER - 1 \<longrightarrow> capOK ORDER c'"
    and foc: "fillOK (ORDER div 2 - 1) ?c \<longrightarrow> fillOK (ORDER div 2 - 1) c'"
    and msc: "mset (inorder c') = add_mset (k, v) (mset (inorder ?c))"
    and ioc: "sorted (keysOf ?c) \<longrightarrow> inorder c' = insList k v (inorder ?c)"
    by blast
  let ?n' = "BTreeNode (isLeaf p) (size_f p + 1) (keys p) (vals p) (list_update (children p) j c')"
  have r: "insertNonFull ORDER n k v = Inr ?n'"
    using nl lfp st jl rc by (intro insertNonFull_node) simp_all
  have sh': "shaped (Suc h) ?n'"
    using nl lv lc shc shc' by (auto dest: in_set_updD)
  have ion: "inorder n = preOf p j @ inorder ?c @ postOf p j"
    unfolding io[symmetric] by (rule inorder_split_at[OF lv lc j])
  have ion': "inorder ?n' = preOf p j @ inorder c' @ postOf p j"
    by (rule inorder_update_child[OF lv lc j])
  have ms: "mset (inorder ?n') = add_mset (k, v) (mset (inorder n))"
    unfolding ion ion' by (simp add: msc)
  have srt: "inorder ?n' = insList k v (inorder n)" if s: "sorted (keysOf n)"
  proof -
    from s have sp: "sorted (keysOf p)" by (simp add: keysOf_def io)
    note b = locate_bounds[OF lv lc j sp lo hi]
    from sorted_sub(2)[OF lv lc j sp] ioc have c: "inorder c' = insList k v (inorder ?c)" by simp
    have pe: "postOf p j = [] \<or> k \<le> fst (hd (postOf p j))"
      using b(2) by (cases "postOf p j") simp_all
    have "insList k v (inorder n) = preOf p j @ insList k v (inorder ?c @ postOf p j)"
      unfolding ion by (rule insList_append1[OF b(1)])
    also have "insList k v (inorder ?c @ postOf p j) = insList k v (inorder ?c) @ postOf p j"
      by (rule insList_append2[OF pe])
    finally show ?thesis unfolding ion' c by simp
  qed
  have so': "sizesOK ?n'" if s: "sizesOK n"
  proof -
    from s so have "sizesOK p" by simp
    then have szp: "size_f p = of_nat (len p) + sum_list (map size_f (children p))"
      and ch: "\<forall>x \<in> set (children p). sizesOK x"
      by (subst (asm) sizesOK_iff, simp)+
    from ch jl soc have "sizesOK c'" by simp
    with ch have "\<forall>x \<in> set (list_update (children p) j c'). sizesOK x"
      by (auto dest: in_set_updD)
    moreover have "size_f p + 1 = of_nat (len p) + sum_list (map size_f (list_update (children p) j c'))"
      unfolding sum_list_update_word[OF jl] szc szp by (simp add: algebra_simps)
    ultimately show ?thesis by simp
  qed
  have co': "capOK ORDER ?n'" if c: "capOK ORDER n" "len n < ORDER - 1"
  proof -
    from c co have cp: "capOK ORDER p" and nf: "len ?c < ORDER - 1" by simp_all
    from cp have lp: "len p \<le> ORDER - 1" and ch: "\<forall>x \<in> set (children p). capOK ORDER x"
      by (subst (asm) capOK_iff, simp)+
    from ch jl nf coc have "capOK ORDER c'" by simp
    with ch have "\<forall>x \<in> set (list_update (children p) j c'). capOK ORDER x"
      by (auto dest: in_set_updD)
    with lp show ?thesis by simp
  qed
  have fo': "fillOK (ORDER div 2 - 1) ?n'" if f: "fillOK (ORDER div 2 - 1) n"
  proof -
    from f fo have "fillOK (ORDER div 2 - 1) p" by simp
    then have ch: "\<forall>x \<in> set (children p). ORDER div 2 - 1 \<le> len x \<and> fillOK (ORDER div 2 - 1) x"
      by (subst (asm) fillOK_iff)
    with jl foc lnc have "ORDER div 2 - 1 \<le> len c' \<and> fillOK (ORDER div 2 - 1) c'"
      by (meson le_trans nth_mem)
    with ch have "\<forall>x \<in> set (list_update (children p) j c').
        ORDER div 2 - 1 \<le> len x \<and> fillOK (ORDER div 2 - 1) x"
      by (auto dest: in_set_updD)
    then show ?thesis by simp
  qed
  from r sh' sz ln ms srt so' co' fo' show ?case
    by (intro exI[of _ ?n']) simp
qed

lemma sorted_insList:
  assumes "sorted (map fst xs)"
  shows "sorted (map fst (insList k v xs))"
proof -
  let ?ks = "map fst xs"
  have m: "map fst (insList k v xs) = takeWhile (\<lambda>x. x < k) ?ks @ k # dropWhile (\<lambda>x. x < k) ?ks"
    by (simp add: insList_def takeWhile_map dropWhile_map comp_def)
  have t: "\<forall>x \<in> set (takeWhile (\<lambda>x. x < k) ?ks). x < k" by (auto dest: set_takeWhileD)
  have sd: "sorted (dropWhile (\<lambda>x. x < k) ?ks)" using assms by (rule sorted_dropWhile)
  have st: "sorted (takeWhile (\<lambda>x. x < k) ?ks)" using assms by (rule sorted_takeWhile)
  have d: "\<forall>y \<in> set (dropWhile (\<lambda>x. x < k) ?ks). k \<le> y"
  proof (cases "dropWhile (\<lambda>x. x < k) ?ks")
    case Nil
    show ?thesis unfolding Nil by simp
  next
    case (Cons a as)
    then have "\<not> a < k" using hd_dropWhile[of "\<lambda>x. x < k" ?ks] by simp
    moreover from sd Cons have "\<forall>y \<in> set as. a \<le> y" by simp
    ultimately show ?thesis using Cons by auto
  qed
  have td: "x \<le> y" if "x \<in> set (takeWhile (\<lambda>x. x < k) ?ks)" "y \<in> set (dropWhile (\<lambda>x. x < k) ?ks)" for x y
  proof -
    from t that(1) have "x < k" by blast
    moreover from d that(2) have "k \<le> y" by blast
    ultimately show ?thesis by simp
  qed
  show ?thesis unfolding m using t d st sd td by (auto simp: sorted_append less_imp_le)
qed

lemma insert_props:
  assumes o: "3 \<le> ORDER" and sh: "shaped h t"
  shows "\<exists>t' h'. insert_t ORDER t k v = Inr t' \<and> shaped h' t' \<and> size_f t' = size_f t + 1
      \<and> (sizesOK t \<longrightarrow> sizesOK t')
      \<and> (capOK ORDER t \<longrightarrow> capOK ORDER t')
      \<and> (fillOK (ORDER div 2 - 1) t \<longrightarrow> fillOK (ORDER div 2 - 1) t')
      \<and> mset (inorder t') = add_mset (k, v) (mset (inorder t))
      \<and> (sorted (keysOf t) \<longrightarrow> inorder t' = insList k v (inorder t))"
proof -
  from o have o2: "2 \<le> ORDER" by simp
  show ?thesis
  proof (cases "len t = ORDER - 1")
    case False
    have r: "insert_t ORDER t k v = insertNonFull ORDER t k v"
      using False by (simp add: insert_t_def)
    have c: "len t < ORDER - 1" if "capOK ORDER t"
    proof -
      from that have "len t \<le> ORDER - 1" by (subst (asm) capOK_iff) simp
      with False show ?thesis by simp
    qed
    from insertNonFull_props[OF o2 sh, of k v] c show ?thesis unfolding r by blast
  next
    case True
    let ?nr = "BTreeNode False (size_f t) [] [] [t]"
    have shn: "shaped (Suc h) ?nr" using sh by simp
    have ion: "inorder ?nr = inorder t" by simp
    from splitChild_props[OF o2 shn, of 0] True obtain p where
      sp: "splitChild ORDER ?nr 0 = Inr p" and shp: "shaped (Suc h) p" and szp: "size_f p = size_f t"
      and ksp: "keys p = insertAt 0 (keys t ! (ORDER div 2 - 1)) []"
      and iop: "inorder p = inorder t"
      and sop: "sizesOK ?nr \<longrightarrow> sizesOK p"
      and cop: "capOK ORDER ?nr \<and> len ?nr < ORDER - 1 \<longrightarrow> capOK ORDER p"
      and fop: "fillOK (ORDER div 2 - 1) ?nr \<longrightarrow> fillOK (ORDER div 2 - 1) p"
      by (auto simp del: inorder.simps shaped.simps sizesOK.simps capOK.simps fillOK.simps simp: ion)
    have r: "insert_t ORDER t k v = insertNonFull ORDER p k v"
      using True sp by (simp add: insert_t_def)
    have lp: "len p = 1" by (simp add: ksp)
    from insertNonFull_props[OF o2 shp, of k v] obtain t' where
      rt: "insertNonFull ORDER p k v = Inr t'" and sht: "shaped (Suc h) t'"
      and szt: "size_f t' = size_f p + 1"
      and sot: "sizesOK p \<longrightarrow> sizesOK t'"
      and cot: "capOK ORDER p \<and> len p < ORDER - 1 \<longrightarrow> capOK ORDER t'"
      and fot: "fillOK (ORDER div 2 - 1) p \<longrightarrow> fillOK (ORDER div 2 - 1) t'"
      and mst: "mset (inorder t') = add_mset (k, v) (mset (inorder p))"
      and iot: "sorted (keysOf p) \<longrightarrow> inorder t' = insList k v (inorder p)"
      by blast
    have so: "sizesOK t'" if "sizesOK t" using that sop sot by simp
    have co: "capOK ORDER t'" if "capOK ORDER t" using that cop cot lp o by simp
    have fo: "fillOK (ORDER div 2 - 1) t'" if "fillOK (ORDER div 2 - 1) t"
    proof -
      have "ORDER div 2 - 1 \<le> ORDER - 1" by arith
      with that True have "fillOK (ORDER div 2 - 1) ?nr" by simp
      with fop fot show ?thesis by simp
    qed
    have kp: "keysOf p = keysOf t" by (simp add: keysOf_def iop)
    from rt sht szt so co fo mst iot show ?thesis
      unfolding r szp iop kp by (intro exI[of _ t'] exI[of _ "Suc h"]) simp
  qed
qed

lemma insertInv_empty: "insertInv ORDER IntrusiveBTree"
proof -
  have "shaped 0 (IntrusiveBTree :: ('a, 'b) node)" by (simp add: IntrusiveBTree_def)
  then have "\<exists>h. shaped h (IntrusiveBTree :: ('a, 'b) node)" ..
  then show ?thesis
    by (simp add: insertInv_def) (simp add: IntrusiveBTree_def keysOf_def)
qed

lemma insertInv_insert:
  assumes "3 \<le> ORDER" "insertInv ORDER t"
  shows "\<exists>t'. insert_t ORDER t k v = Inr t' \<and> insertInv ORDER t'
     \<and> size_t t' = size_t t + 1 \<and> inorder t' = insList k v (inorder t)"
proof -
  from assms(2) obtain h where sh: "shaped h t" and i: "sizesOK t" "capOK ORDER t"
    "fillOK (ORDER div 2 - 1) t" "sorted (keysOf t)"
    by (auto simp: insertInv_def minFillCode_def)
  from insert_props[OF assms(1) sh, of k v] i obtain t' h' where
    r: "insert_t ORDER t k v = Inr t'" "shaped h' t'" "size_f t' = size_f t + 1" "sizesOK t'"
      "capOK ORDER t'" "fillOK (ORDER div 2 - 1) t'" "inorder t' = insList k v (inorder t)"
    by blast
  from i(4) have "sorted (keysOf t')"
    unfolding keysOf_def r(7) by (rule sorted_insList)
  with r show ?thesis by (auto simp: insertInv_def minFillCode_def size_t_def)
qed

lemma insertInv_inserts:
  assumes "3 \<le> ORDER"
  shows "insertInv ORDER t \<Longrightarrow> \<exists>t'. inserts ORDER t kvs = Inr t' \<and> insertInv ORDER t'
     \<and> size_t t' = size_t t + of_nat (length kvs)
     \<and> mset (inorder t') = mset (inorder t) + mset kvs"
proof (induction kvs arbitrary: t)
  case Nil
  then show ?case by simp
next
  case (Cons kv kvs)
  from insertInv_insert[OF assms Cons.prems, of "fst kv" "snd kv"] obtain t1 where
    r1: "insert_t ORDER t (fst kv) (snd kv) = Inr t1" and i1: "insertInv ORDER t1"
    and s1: "size_t t1 = size_t t + 1" and o1: "inorder t1 = insList (fst kv) (snd kv) (inorder t)"
    by blast
  from Cons.IH[OF i1] obtain t' where
    r: "inserts ORDER t1 kvs = Inr t'" and i: "insertInv ORDER t'"
    and s: "size_t t' = size_t t1 + of_nat (length kvs)"
    and m: "mset (inorder t') = mset (inorder t1) + mset kvs"
    by blast
  have "mset (inorder t1) = add_mset kv (mset (inorder t))"
    unfolding o1 by (simp add: mset_insList)
  with r1 r i s s1 m show ?case by (intro exI[of _ t']) (simp add: algebra_simps)
qed

subsection \<open>find\<close>

lemma keysOf_split_at:
  assumes lv: "length (vals p) = len p" and lc: "length (children p) = Suc (len p)" and j: "j \<le> len p"
  shows "keysOf p = map fst (preOf p j) @ keysOf (children p ! j) @ map fst (postOf p j)"
  unfolding keysOf_def inorder_split_at[OF lv lc j] by simp

lemma sorted_nth_le: "sorted xs \<Longrightarrow> i \<le> j \<Longrightarrow> j < length xs \<Longrightarrow> xs ! i \<le> xs ! j"
  by (simp add: sorted_iff_nth_mono)

lemma locate_match_iff:
  assumes s: "sorted (keys n)"
  shows "(locate n k < len n \<and> \<not> k < keys n ! locate n k) \<longleftrightarrow> k \<in> set (keys n)"
proof
  assume "locate n k < len n \<and> \<not> k < keys n ! locate n k"
  with locate_at[of n k] have "keys n ! locate n k = k" "locate n k < len n" by auto
  then show "k \<in> set (keys n)" by (metis nth_mem)
next
  assume "k \<in> set (keys n)"
  then obtain j where j: "j < len n" "keys n ! j = k" by (auto simp: in_set_conv_nth)
  have lj: "locate n k \<le> j"
  proof (rule ccontr)
    assume "\<not> locate n k \<le> j"
    then have "j < locate n k" by simp
    from locate_before[OF this] j show False by simp
  qed
  with j have l: "locate n k < len n" by simp
  from sorted_nth_le[OF s lj j(1)] j have "keys n ! locate n k \<le> k" by simp
  with l show "locate n k < len n \<and> \<not> k < keys n ! locate n k" by auto
qed

lemma locate_match_eq:
  "locate n k < len n \<Longrightarrow> \<not> k < keys n ! locate n k \<Longrightarrow> keys n ! locate n k = k"
  using locate_at[of n k] by auto

lemma doFind_spec:
  "shaped h n \<Longrightarrow> sorted (keysOf n) \<Longrightarrow>
   \<exists>c. doFind n k = Inr c \<and> (valid c \<longleftrightarrow> k \<in> set (keysOf n))
     \<and> (\<forall>m i. c = Some (m, i) \<longrightarrow> keys m ! i = k \<and> (keys m ! i, vals m ! i) \<in> set (inorder n))"
proof (induction h arbitrary: n)
  case 0
  then have lf: "isLeaf n" and cs: "children n = []" and lv: "length (vals n) = len n"
    by (simp_all add: shaped_0_iff)
  have ko: "keysOf n = keys n" by (rule keysOf_leaf[OF "0.prems"(1)])
  have io: "inorder n = zip (keys n) (vals n)" using cs by (rule inorder_leaf)
  let ?i = "locate n k"
  show ?case
  proof (cases "?i < len n \<and> \<not> k < keys n ! ?i")
    case True
    then have r: "doFind n k = Inr (Some (n, ?i))" by (subst doFind.simps) (simp add: Let_def)
    from True have e: "keys n ! ?i = k" by (simp add: locate_match_eq)
    have "(keys n ! ?i, vals n ! ?i) \<in> set (zip (keys n) (vals n))"
      using True lv by (auto simp: in_set_zip)
    moreover have "k \<in> set (keysOf n)" using True e unfolding ko by (metis nth_mem)
    ultimately show ?thesis using r e by (simp add: valid_def io)
  next
    case False
    then have r: "doFind n k = Inr None" using lf by (subst doFind.simps) (auto simp: Let_def)
    from False locate_match_iff[of n k] "0.prems"(2) have "k \<notin> set (keysOf n)"
      unfolding ko by blast
    with r show ?thesis by (simp add: valid_def)
  qed
next
  case (Suc h)
  note sh = Suc.prems(1) and s = Suc.prems(2)
  note lv = shaped_lens(1)[OF sh] and lc = shaped_lens(2)[OF sh]
  from sh have nl: "\<not> isLeaf n" and shc: "\<forall>c \<in> set (children n). shaped h c"
    by (simp_all add: shaped_Suc_iff)
  let ?i = "locate n k"
  have i: "?i \<le> len n" by (rule locate_le)
  with lc have il: "?i < length (children n)" by simp
  note dec = inorder_split_at[OF lv lc i]
  show ?case
  proof (cases "?i < len n \<and> \<not> k < keys n ! ?i")
    case True
    then have r: "doFind n k = Inr (Some (n, ?i))" by (subst doFind.simps) (simp add: Let_def)
    from True have e: "keys n ! ?i = k" by (simp add: locate_match_eq)
    have "(keys n ! ?i, vals n ! ?i) \<in> set (postOf n ?i)" using True by (simp add: postOf_def)
    then have m: "(keys n ! ?i, vals n ! ?i) \<in> set (inorder n)" unfolding dec by simp
    then have "fst (keys n ! ?i, vals n ! ?i) \<in> fst ` set (inorder n)" by (rule imageI)
    with e have "k \<in> set (keysOf n)" by (simp add: keysOf_def)
    with r e m show ?thesis by (simp add: valid_def)
  next
    case False
    let ?c = "children n ! ?i"
    from False have r: "doFind n k = doFind ?c k"
      using nl il by (subst doFind.simps) (auto simp: Let_def)
    have lo: "0 < ?i \<longrightarrow> keys n ! (?i - 1) < k" by (auto intro: locate_before)
    have hi: "?i < len n \<longrightarrow> k \<le> keys n ! ?i" by (auto intro: locate_at)
    note b = locate_bounds[OF lv lc i s lo hi]
    have npre: "k \<notin> fst ` set (preOf n ?i)" using b(1) by auto
    have npost: "k \<notin> fst ` set (postOf n ?i)"
    proof (cases "?i < len n")
      case True
      with False have lt: "k < keys n ! ?i" by simp
      from sorted_bounds(2)[OF lv lc i s True] lt show ?thesis by fastforce
    next
      case False
      with i have "?i = len n" by simp
      then show ?thesis by simp
    qed
    have mem: "k \<in> set (keysOf n) \<longleftrightarrow> k \<in> set (keysOf ?c)"
      unfolding keysOf_split_at[OF lv lc i] using npre npost by auto
    from il shc have shch: "shaped h ?c" by simp
    from Suc.IH[OF shch sorted_sub(2)[OF lv lc i s]] obtain c where
      c: "doFind ?c k = Inr c" "valid c \<longleftrightarrow> k \<in> set (keysOf ?c)"
      "\<forall>m i. c = Some (m, i) \<longrightarrow> keys m ! i = k \<and> (keys m ! i, vals m ! i) \<in> set (inorder ?c)"
      by blast
    have "set (inorder ?c) \<subseteq> set (inorder n)" unfolding dec by auto
    with c mem show ?thesis unfolding r by (intro exI[of _ c]) auto
  qed
qed

text \<open>C1, as amended. \<open>insert\<close> never overwrites: on every well-formed tree and for
  every key, stored already or not, it returns without failing, the tree stays
  well-formed, \<open>size()\<close> grows by exactly one, the entries are the old ones with the new
  entry put before the first entry whose key is not less, and \<open>find\<close> of the key is valid
  afterwards, on an entry with that key.\<close>

theorem insert_adds_entry:
  assumes "3 \<le> ORDER" and "wellFormed ORDER t"
  shows "\<exists>t'. insert_t ORDER t k v = Inr t' \<and> wellFormed ORDER t'
     \<and> size_t t' = size_t t + 1
     \<and> inorder t' = insList k v (inorder t)
     \<and> mset (inorder t') = add_mset (k, v) (mset (inorder t))
     \<and> (\<exists>c. find_t t' k = Inr c \<and> valid c \<and> cursor_key c = Inr k)"
proof -
  from assms(2) obtain h where sh: "shaped h t" and i: "sizesOK t" "capOK ORDER t" "sorted (keysOf t)"
    by (auto simp: wellFormed_def)
  from insert_props[OF assms(1) sh, of k v] i obtain t' h' where
    r: "insert_t ORDER t k v = Inr t'" "shaped h' t'" "size_f t' = size_f t + 1" "sizesOK t'"
      "capOK ORDER t'" "inorder t' = insList k v (inorder t)"
      "mset (inorder t') = add_mset (k, v) (mset (inorder t))"
    by blast
  from i(3) have s: "sorted (keysOf t')"
    unfolding keysOf_def r(6) by (rule sorted_insList)
  have "(k, v) \<in> set (insList k v (inorder t))" by (simp add: insList_def)
  then have "fst (k, v) \<in> fst ` set (inorder t')" unfolding r(6) by (rule imageI)
  then have mem: "k \<in> set (keysOf t')" by (simp add: keysOf_def)
  from doFind_spec[OF r(2) s, of k] mem obtain c where
    c: "doFind t' k = Inr c" "valid c" "\<forall>m i. c = Some (m, i) \<longrightarrow> keys m ! i = k"
    by blast
  from c(2) obtain m i where "c = Some (m, i)" by (cases c) (auto simp: valid_def)
  with c(3) have "cursor_key c = Inr k" by (simp add: cursor_key_def)
  with c have "\<exists>c. find_t t' k = Inr c \<and> valid c \<and> cursor_key c = Inr k"
    by (auto simp: find_t_def)
  with r s show ?thesis by (auto simp: wellFormed_def size_t_def)
qed

theorem insert_adds_entry_witness:
  "wellFormed 4 (BTreeNode True 1 [1::int] [10::int] [])
   \<and> insert_t 4 (BTreeNode True 1 [1::int] [10::int] []) 1 20 = Inr (BTreeNode True 2 [1, 1] [20, 10] [])
   \<and> wellFormed 4 (BTreeNode True 2 [1::int, 1] [20::int, 10] [])
   \<and> size_t (BTreeNode True 2 [1::int, 1] [20::int, 10] []) = size_t (BTreeNode True 1 [1::int] [10::int] []) + 1
   \<and> inorder (BTreeNode True 2 [1::int, 1] [20::int, 10] []) = insList 1 20 [(1, 10)]"
proof -
  let ?T = "BTreeNode True 1 [1::int] [10::int] []"
  let ?T' = "BTreeNode True 2 [1::int, 1] [20::int, 10] []"
  have "shaped 0 ?T" by simp
  then have "\<exists>h. shaped h ?T" ..
  then have w: "wellFormed 4 ?T" by (simp add: wellFormed_def keysOf_def)
  have r: "insert_t 4 ?T 1 20 = Inr ?T'" by code_simp
  from insert_adds_entry[of 4 ?T 1 20] w r
  have "wellFormed 4 ?T' \<and> size_t ?T' = size_t ?T + 1 \<and> inorder ?T' = insList 1 20 (inorder ?T)"
    by auto
  with w r show ?thesis by simp
qed

text \<open>C4, as amended. With the minimum \<open>ORDER / 2 - 1\<close> that \<open>doTraverse\<close> checks (the
  integer division of the source), for every \<open>ORDER\<close> of at least 3: \<open>insert\<close> keeps every
  node below the root at or above the minimum, and so the minimum holds after every
  sequence of inserts into the empty tree.\<close>

theorem minimum_fill_insert:
  assumes "3 \<le> ORDER"
  shows "(shaped h t \<and> fillOK (minFillCode ORDER) t \<longrightarrow>
           (\<exists>t'. insert_t ORDER t k v = Inr t' \<and> fillOK (minFillCode ORDER) t'))
       \<and> (\<exists>t'. inserts ORDER IntrusiveBTree kvs = Inr t' \<and> fillOK (minFillCode ORDER) t')"
proof -
  have a: "\<exists>t'. insert_t ORDER t k v = Inr t' \<and> fillOK (minFillCode ORDER) t'"
    if "shaped h t" "fillOK (minFillCode ORDER) t"
    using insert_props[OF assms that(1), of k v] that(2) unfolding minFillCode_def by blast
  from insertInv_inserts[OF assms insertInv_empty, of kvs]
  have b: "\<exists>t'. inserts ORDER IntrusiveBTree kvs = Inr t' \<and> fillOK (minFillCode ORDER) t'"
    by (auto simp: insertInv_def)
  from a b show ?thesis by blast
qed

theorem minimum_fill_insert_witness:
  "shaped 1 (BTreeNode False 5 [2] [()] [BTreeNode True 1 [1] [()] [], BTreeNode True 3 [3, 4, 5] [(), (), ()] []])
   \<and> fillOK (minFillCode 5) (BTreeNode False 5 [2::int] [()]
         [BTreeNode True 1 [1] [()] [], BTreeNode True 3 [3, 4, 5] [(), (), ()] []])
   \<and> insert_t 5 (BTreeNode False 5 [2::int] [()]
         [BTreeNode True 1 [1] [()] [], BTreeNode True 3 [3, 4, 5] [(), (), ()] []]) 6 ()
       = Inr (BTreeNode False 6 [2] [()]
         [BTreeNode True 1 [1] [()] [], BTreeNode True 4 [3, 4, 5, 6] [(), (), (), ()] []])
   \<and> fillOK (minFillCode 5) (BTreeNode False 6 [2::int] [()]
         [BTreeNode True 1 [1] [()] [], BTreeNode True 4 [3, 4, 5, 6] [(), (), (), ()] []])"
proof -
  let ?T = "BTreeNode False 5 [2::int] [()]
         [BTreeNode True 1 [1] [()] [], BTreeNode True 3 [3, 4, 5] [(), (), ()] []]"
  let ?T' = "BTreeNode False 6 [2::int] [()]
         [BTreeNode True 1 [1] [()] [], BTreeNode True 4 [3, 4, 5, 6] [(), (), (), ()] []]"
  have a: "shaped 1 ?T" "fillOK (minFillCode 5) ?T" by code_simp+
  have r: "insert_t 5 ?T 6 () = Inr ?T'" by code_simp
  from minimum_fill_insert[of 5 1 ?T 6 "()" "[]"] a r
  have "fillOK (minFillCode 5) ?T'" by auto
  with a r show ?thesis by simp
qed

subsection \<open>getRank\<close>

lemma length_inter_eq:
  "length cs = length es \<Longrightarrow> length (inter cs es) = length es + sum_list (map length cs)"
  by (induction cs es rule: list_induct2) simp_all

lemma length_inter_Suc:
  "length cs = Suc (length es) \<Longrightarrow> length (inter cs es) = length es + sum_list (map length cs)"
proof (induction es arbitrary: cs)
  case Nil
  then obtain c where "cs = [c]" by (cases cs) auto
  then show ?case by simp
next
  case (Cons e es)
  then obtain c cs' where "cs = c # cs'" "length cs' = Suc (length es)" by (cases cs) auto
  with Cons.IH[of cs'] show ?case by simp
qed

lemma of_nat_sum_list_map:
  "(of_nat (sum_list (map f xs)) :: 32 word) = sum_list (map (\<lambda>x. of_nat (f x)) xs)"
  by (induction xs) simp_all

lemma size_count:
  "shaped h n \<Longrightarrow> sizesOK n \<Longrightarrow> size_f n = of_nat (length (inorder n))"
proof (induction h arbitrary: n)
  case 0
  then have cs: "children n = []" and lv: "length (vals n) = len n" by (simp_all add: shaped_0_iff)
  from "0.prems"(2) have "size_f n = of_nat (len n)" using cs by (subst (asm) sizesOK_iff) simp
  then show ?case using cs lv by (simp add: inorder_leaf)
next
  case (Suc h)
  note lv = shaped_lens(1)[OF Suc.prems(1)] and lc = shaped_lens(2)[OF Suc.prems(1)]
  from Suc.prems(1) have shc: "\<forall>c \<in> set (children n). shaped h c" by (simp add: shaped_Suc_iff)
  from Suc.prems(2) have sz: "size_f n = of_nat (len n) + sum_list (map size_f (children n))"
    and ch: "\<forall>x \<in> set (children n). sizesOK x"
    by (subst (asm) sizesOK_iff, simp)+
  have meq: "map size_f (children n) = map (\<lambda>c. of_nat (length (inorder c))) (children n)"
    using Suc.IH shc ch by (intro map_cong) auto
  have s: "sum_list (map size_f (children n))
      = of_nat (sum_list (map length (map inorder (children n))))"
    unfolding meq by (simp add: of_nat_sum_list_map comp_def)
  have "length (inorder n) = len n + sum_list (map length (map inorder (children n)))"
    by (subst inorder_eq, subst length_inter_Suc) (use lv lc in simp_all)
  with sz s show ?case by simp
qed

lemma length_preOf:
  assumes "shaped (Suc h) p" "sizesOK p" "j \<le> len p"
  shows "(of_nat (length (preOf p j)) :: 32 word) = of_nat j + sum_list (map size_f (take j (children p)))"
proof -
  note lv = shaped_lens(1)[OF assms(1)] and lc = shaped_lens(2)[OF assms(1)]
  from assms(1) have shc: "\<forall>c \<in> set (children p). shaped h c" by (simp add: shaped_Suc_iff)
  from assms(2) have ch: "\<forall>x \<in> set (children p). sizesOK x" by (subst (asm) sizesOK_iff) simp
  have meq: "map size_f (take j (children p)) = map (\<lambda>c. of_nat (length (inorder c))) (take j (children p))"
    using shc ch by (intro map_cong) (auto dest!: in_set_takeD intro: size_count)
  have s: "sum_list (map size_f (take j (children p)))
      = of_nat (sum_list (map length (take j (map inorder (children p)))))"
    unfolding meq by (simp add: of_nat_sum_list_map comp_def take_map)
  have "length (preOf p j) = j + sum_list (map length (take j (map inorder (children p))))"
    unfolding preOf_def by (subst length_inter_eq) (use lv lc assms(3) in simp_all)
  with s show ?thesis by simp
qed

lemma filter_less_sorted:
  "sorted xs \<Longrightarrow> filter (\<lambda>x. x < k) xs = takeWhile (\<lambda>x. x < (k::'a::linorder)) xs"
proof (induction xs)
  case Nil
  then show ?case by simp
next
  case (Cons x xs)
  show ?case
  proof (cases "x < k")
    case True
    with Cons show ?thesis by simp
  next
    case False
    with Cons.prems have "\<forall>y \<in> set xs. \<not> y < k" by fastforce
    then have "filter (\<lambda>x. x < k) xs = []" by (simp add: filter_empty_conv)
    with False show ?thesis by simp
  qed
qed

lemma find_if_not_less_takeWhile:
  "find_if_not_less ks k = length (takeWhile (\<lambda>x. x < k) ks)"
  by (induction ks) simp_all

lemma countLess_split:
  assumes lv: "length (vals p) = len p" and lc: "length (children p) = Suc (len p)" and j: "j \<le> len p"
    and pre: "\<forall>x \<in> set (preOf p j). fst x < k" and post: "\<forall>x \<in> set (postOf p j). k \<le> fst x"
  shows "countLess k p = length (preOf p j) + countLess k (children p ! j)"
proof -
  have a: "filter (\<lambda>x. x < k) (map fst (preOf p j)) = map fst (preOf p j)"
    using pre by (simp add: filter_id_conv)
  have b: "filter (\<lambda>x. x < k) (map fst (postOf p j)) = []"
    using post by (auto simp: filter_empty_conv)
  show ?thesis
    unfolding countLess_def keysOf_split_at[OF lv lc j] filter_append a b by simp
qed

lemma getRankLoop_spec:
  "shaped h n \<Longrightarrow> sizesOK n \<Longrightarrow> sorted_wrt (<) (keysOf n) \<Longrightarrow>
   getRankLoop n k r = Inr (r + of_nat (countLess k n))"
proof (induction h arbitrary: n r)
  case 0
  then have lf: "isLeaf n" and cs: "children n = []" by (simp_all add: shaped_0_iff)
  have ko: "keysOf n = keys n" by (rule keysOf_leaf[OF "0.prems"(1)])
  from "0.prems"(3) have s: "sorted (keys n)" unfolding ko by (rule strict_sorted_imp_sorted)
  have c: "countLess k n = locate n k"
    unfolding countLess_def ko locate_def find_if_not_less_takeWhile filter_less_sorted[OF s] ..
  show ?case using lf by (subst getRankLoop.simps) (simp add: Let_def c)
next
  case (Suc h)
  note sh = Suc.prems(1) and so = Suc.prems(2) and st = Suc.prems(3)
  note lv = shaped_lens(1)[OF sh] and lc = shaped_lens(2)[OF sh]
  from sh have nl: "\<not> isLeaf n" and shc: "\<forall>c \<in> set (children n). shaped h c"
    by (simp_all add: shaped_Suc_iff)
  from so have ch: "\<forall>x \<in> set (children n). sizesOK x" by (subst (asm) sizesOK_iff) simp
  from st have s: "sorted (keysOf n)" by (rule strict_sorted_imp_sorted)
  let ?i = "locate n k"
  let ?c = "children n ! ?i"
  have i: "?i \<le> len n" by (rule locate_le)
  with lc have il: "?i < length (children n)" by simp
  from il shc ch have shch: "shaped h ?c" and soch: "sizesOK ?c" by simp_all
  have lo: "0 < ?i \<longrightarrow> keys n ! (?i - 1) < k" by (auto intro: locate_before)
  have hi: "?i < len n \<longrightarrow> k \<le> keys n ! ?i" by (auto intro: locate_at)
  note b = locate_bounds[OF lv lc i s lo hi]
  note cl = countLess_split[OF lv lc i b]
  note lp = length_preOf[OF sh so i]
  from st have parts: "sorted_wrt (<) (keysOf ?c)"
    "\<forall>x \<in> set (keysOf ?c). \<forall>y \<in> set (map fst (postOf n ?i)). x < y"
    unfolding keysOf_split_at[OF lv lc i] by (simp_all add: sorted_wrt_append)
  let ?r2 = "r + of_nat ?i + sum_list (map size_f (take ?i (children n)))"
  have r2: "?r2 = r + of_nat (length (preOf n ?i))" by (simp add: lp add.assoc)
  show ?case
  proof (cases "?i < len n \<and> \<not> k < keys n ! ?i")
    case True
    then have e: "keys n ! ?i = k" by (simp add: locate_match_eq)
    from True have "k \<in> set (map fst (postOf n ?i))" by (simp add: postOf_def e)
    with parts(2) have "\<forall>x \<in> set (keysOf ?c). x < k" by blast
    then have "countLess k ?c = length (keysOf ?c)" by (simp add: countLess_def filter_id_conv)
    then have "countLess k ?c = length (inorder ?c)" by (simp add: keysOf_def)
    with size_count[OF shch soch] have sc: "size_f ?c = of_nat (countLess k ?c)" by simp
    have "getRankLoop n k r = Inr (?r2 + size_f ?c)"
      using True nl il by (subst getRankLoop.simps) (simp add: Let_def)
    then show ?thesis unfolding r2 sc cl by (simp add: add.assoc)
  next
    case False
    have "getRankLoop n k r = getRankLoop ?c k ?r2"
      using False nl il by (subst getRankLoop.simps) (auto simp: Let_def)
    also have "\<dots> = Inr (?r2 + of_nat (countLess k ?c))"
      by (rule Suc.IH[OF shch soch parts(1)])
    finally show ?thesis unfolding r2 cl by (simp add: add.assoc)
  qed
qed

lemma countLess_mono:
  assumes "a \<in> set (keysOf t)" "a < b"
  shows "countLess a t < countLess b t"
proof -
  let ?xs = "keysOf t"
  have "filter (\<lambda>x. x < a) ?xs = filter (\<lambda>x. x < a) (filter (\<lambda>x. x < b) ?xs)"
    using assms(2) by (auto intro: filter_cong)
  moreover have "a \<in> set (filter (\<lambda>x. x < b) ?xs)" using assms by simp
  then have "length (filter (\<lambda>x. x < a) (filter (\<lambda>x. x < b) ?xs)) < length (filter (\<lambda>x. x < b) ?xs)"
    by (intro length_filter_less[of a]) simp_all
  ultimately show ?thesis by (simp add: countLess_def)
qed

lemma countLess_le: "countLess k t \<le> length (keysOf t)"
  by (simp add: countLess_def)

lemma of_nat_less_32:
  "m < n \<Longrightarrow> n < 2 ^ 32 \<Longrightarrow> (of_nat m :: 32 word) < of_nat n"
  by (simp add: word_less_nat_alt unat_of_nat take_bit_nat_eq_self)

text \<open>C2, as amended. On every tree of the shape of a B-tree with consistent sizes whose
  keys are strictly increasing in the in-order walk (no key stored twice), \<open>rank(k)\<close> is
  the number of stored keys strictly less than \<open>k\<close>, as an \<open>unsigned\<close>; so for stored keys
  \<open>a < b\<close>, in a tree of fewer than \<open>2^32\<close> keys, \<open>rank(a) < rank(b)\<close>.\<close>

theorem rank_counts_less:
  assumes "shaped h t" and "sizesOK t" and "sorted_wrt (<) (keysOf t)"
  shows "getRank t k = Inr (of_nat (countLess k t))
     \<and> (a \<in> set (keysOf t) \<and> b \<in> set (keysOf t) \<and> a < b \<and> length (keysOf t) < 2 ^ 32 \<longrightarrow>
          (\<exists>ra rb. getRank t a = Inr ra \<and> getRank t b = Inr rb \<and> ra < rb))"
proof -
  have r: "getRank t k = Inr (of_nat (countLess k t))" for k
    unfolding getRank_def using getRankLoop_spec[OF assms, of k 0] by simp
  have m: "\<exists>ra rb. getRank t a = Inr ra \<and> getRank t b = Inr rb \<and> ra < rb"
    if "a \<in> set (keysOf t)" "a < b" "length (keysOf t) < 2 ^ 32"
  proof -
    from countLess_mono[OF that(1,2)] have l: "countLess a t < countLess b t" .
    from countLess_le[of b t] that(3) have "countLess b t < 2 ^ 32" by simp
    from of_nat_less_32[OF l this] r[of a] r[of b] show ?thesis by blast
  qed
  from r m show ?thesis by blast
qed

theorem rank_counts_less_witness:
  "shaped 1 (BTreeNode False 4 [2] [()] [BTreeNode True 1 [1] [()] [], BTreeNode True 2 [3, 4] [(), ()] []])
   \<and> sizesOK (BTreeNode False 4 [2::int] [()]
        [BTreeNode True 1 [1] [()] [], BTreeNode True 2 [3, 4] [(), ()] []])
   \<and> sorted_wrt (<) (keysOf (BTreeNode False 4 [2::int] [()]
        [BTreeNode True 1 [1] [()] [], BTreeNode True 2 [3, 4] [(), ()] []]))
   \<and> getRank (BTreeNode False 4 [2::int] [()]
        [BTreeNode True 1 [1] [()] [], BTreeNode True 2 [3, 4] [(), ()] []]) 3 = Inr 2
   \<and> countLess 3 (BTreeNode False 4 [2::int] [()]
        [BTreeNode True 1 [1] [()] [], BTreeNode True 2 [3, 4] [(), ()] []]) = 2
   \<and> getRank (BTreeNode False 4 [2::int] [()]
        [BTreeNode True 1 [1] [()] [], BTreeNode True 2 [3, 4] [(), ()] []]) 2 = Inr 1
   \<and> (1 :: 32 word) < 2"
proof -
  let ?T = "BTreeNode False 4 [2::int] [()]
        [BTreeNode True 1 [1] [()] [], BTreeNode True 2 [3, 4] [(), ()] []]"
  have a: "shaped 1 ?T" "sizesOK ?T" "sorted_wrt (<) (keysOf ?T)" by code_simp+
  have c: "countLess 3 ?T = 2" "countLess 2 ?T = 1" by code_simp+
  from rank_counts_less[OF a, of 3 2 3] rank_counts_less[OF a, of 2 2 3] a c
  show ?thesis by simp
qed

end
